theory Spec2Isabelle
  imports Main
begin

section \<open>The packet transmitter of sylkie: \<^verbatim>\<open>src/transmitter.c\<close>\<close>

text \<open>
  The transmitter creates one \<^verbatim>\<open>timerfd\<close> per packet command, registers every timer
  with one \<^verbatim>\<open>epoll\<close> descriptor and sends a command's packet each time its timer
  fires. The C code works on the kernel (descriptors, timers, the epoll interest list),
  on the heap (the \<^verbatim>\<open>struct rx_event\<close> wrappers) and on the commands' \<^verbatim>\<open>repeat\<close>
  counters. The embedding passes all of that around as one explicit \<open>world\<close>; the results
  of the system calls, which the program cannot choose, are read from an \<open>env\<close>.
\<close>

subsection \<open>Data\<close>

text \<open>A C pointer: \<open>NULL\<close> or the address of an object.\<close>

datatype ptr = NULL | Ptr nat

text \<open>
  Modelled from the spec: \<^verbatim>\<open>struct packet_command\<close> is declared in \<^verbatim>\<open>cmds.h\<close>, which is
  not among the sources; the transmitter reads the four fields below, the spec's Command.
  \<open>sender\<close> and \<open>pkt\<close> are opaque handles. \<open>timeout\<close> and \<open>repeat\<close> are signed integers:
  the code decrements \<open>repeat\<close> only when it is positive and only compares and copies
  \<open>timeout\<close>, so no operation on them can overflow and they are \<open>int\<close> here.
\<close>

record packet_command =
  sender :: nat
  pkt :: nat
  timeout :: int
  repeat :: int

text \<open>
  \<^verbatim>\<open>struct rx_event { struct packet_command *cmd; int fd; }\<close>. The pointer \<open>cmd\<close> is the
  position of the command in the caller's list.
\<close>

record rx_event =
  cmd :: nat
  fd :: nat

record timespec =
  tv_sec :: int
  tv_nsec :: int

record itimerspec =
  it_interval :: timespec
  it_value :: timespec

text \<open>The observable calls of a run, oldest first: each \<^verbatim>\<open>epoll_wait\<close> and each
  call of the sender, with the command sent and whether the sender reported success.\<close>

datatype call = Wait | Send nat bool

text \<open>
  The state the program works on.
  \<^item> \<open>cmds\<close>: the caller's commands (only \<open>repeat\<close> is ever written);
  \<^item> \<open>heap\<close>: the live \<^verbatim>\<open>rx_event\<close> wrappers by address; \<^verbatim>\<open>free\<close> removes the address;
  \<^item> \<open>fds\<close>: the open timer descriptors; \<open>timers\<close>: what each was armed with;
  \<^item> \<open>evs\<close>: the list \<^verbatim>\<open>struct rx_events\<close>, in insertion order. A list node holds exactly
    one wrapper pointer, and a node is named by the wrapper address it holds;
  \<^item> \<open>efd_open\<close> and \<open>epoll\<close>: the epoll descriptor and its interest list, from a
    registered descriptor to the \<^verbatim>\<open>data.ptr\<close> it was registered with;
  \<^item> \<open>next_addr\<close>, \<open>next_fd\<close>: \<^verbatim>\<open>malloc\<close> and \<^verbatim>\<open>timerfd_create\<close> hand out fresh names.
\<close>

record world =
  cmds :: "packet_command list"
  heap :: "nat \<rightharpoonup> rx_event"
  fds :: "nat set"
  timers :: "nat \<rightharpoonup> itimerspec"
  evs :: "nat list"
  efd_open :: bool
  epoll :: "nat \<rightharpoonup> ptr"
  trace :: "call list"
  next_addr :: nat
  next_fd :: nat

subsection \<open>The environment\<close>

text \<open>The first call that fails while a command is admitted (\<open>None\<close>: every call succeeds).\<close>

datatype admission_fault =
  MallocFails | TimerfdCreateFails | RxEventsAddFails | SettimeFails | EpollCtlAddFails

text \<open>
  One timer the kernel reports as expired, with the results of the calls the dispatch of
  that event may make: the sender, \<^verbatim>\<open>epoll_ctl(EPOLL_CTL_DEL)\<close> and \<^verbatim>\<open>read\<close>. The sender
  (\<^verbatim>\<open>sylkie_sender_send_packet\<close> of \<^verbatim>\<open>sender.h\<close>) is outside the transmitter: a call
  either succeeds or sets \<^verbatim>\<open>err\<close>, and \<open>send_err\<close> says which.
\<close>

record firing =
  ready_fd :: nat
  send_err :: bool
  del_err :: bool
  read_err :: bool

text \<open>The result of one \<^verbatim>\<open>epoll_wait\<close>: an error, or the expired timers.\<close>

datatype wait_result = WaitFails | Ready "firing list"

text \<open>
  \<open>init_fails\<close>: \<^verbatim>\<open>rx_events_init\<close> returns \<open>NULL\<close>; \<open>admission k\<close>: what fails when the
  \<open>k\<close>-th command is admitted; \<open>waits\<close>: the results of the successive \<^verbatim>\<open>epoll_wait\<close>
  calls. When the program waits and \<open>waits\<close> is used up, it stays blocked.
\<close>

record env =
  init_fails :: bool
  admission :: "nat \<Rightarrow> admission_fault option"
  waits :: "wait_result list"

subsection \<open>The list \<^verbatim>\<open>rx_events\<close>\<close>

text \<open>
  Modelled from the spec: the macro \<^verbatim>\<open>GENERIC_LIST\<close> that generates \<^verbatim>\<open>rx_events_add\<close>,
  \<^verbatim>\<open>rx_events_rm\<close> and \<^verbatim>\<open>rx_events_free\<close> is not in \<^verbatim>\<open>transmitter.c\<close>. Following the
  spec's Event Registry, \<open>add\<close> appends to the ordered collection.
\<close>

definition rx_events_add :: "nat list \<Rightarrow> nat \<Rightarrow> nat list" where
  "rx_events_add l a = l @ [a]"

text \<open>
  Modelled from the spec: \<^verbatim>\<open>rx_events_rm\<close> of the missing macro \<^verbatim>\<open>GENERIC_LIST\<close>. \<open>remove\<close>
  detaches the entry from the collection and does not destroy the timer resource.
\<close>

definition rx_events_rm :: "nat list \<Rightarrow> nat \<Rightarrow> nat list" where
  "rx_events_rm l a = remove1 a l"

text \<open>
  Modelled from the spec: \<^verbatim>\<open>rx_events_free\<close> of the missing macro \<^verbatim>\<open>GENERIC_LIST\<close> releases
  the entries of the collection (not what they point to) and leaves no entry behind.
\<close>

definition rx_events_free :: "nat list \<Rightarrow> nat list" where
  "rx_events_free l = []"

subsection \<open>\<^verbatim>\<open>add_packet_timer\<close>\<close>

text \<open>
  Lines 67 to 102: the \<^verbatim>\<open>struct itimerspec ts\<close> computed from the command, and the
  value the command's \<open>repeat\<close> has afterwards.
\<close>

definition packet_timer_spec :: "packet_command \<Rightarrow> itimerspec \<times> int" where
  "packet_timer_spec c =
     (if repeat c = 0 then
        (\<lparr>it_interval = \<lparr>tv_sec = 0, tv_nsec = 0\<rparr>,
          it_value = \<lparr>tv_sec = (if timeout c \<ge> 0 then timeout c else 0), tv_nsec = 1\<rparr>\<rparr>,
         repeat c)
      else if repeat c = 1 then
        (\<lparr>it_interval = \<lparr>tv_sec = 0, tv_nsec = 0\<rparr>,
          it_value = \<lparr>tv_sec = (if timeout c \<ge> 0 then timeout c else 0), tv_nsec = 1\<rparr>\<rparr>,
         repeat c - 1)
      else
        (\<lparr>it_interval = (if timeout c \<le> 0 then \<lparr>tv_sec = 0, tv_nsec = 10000\<rparr>
                          else \<lparr>tv_sec = timeout c, tv_nsec = 0\<rparr>),
          it_value = \<lparr>tv_sec = 0, tv_nsec = 1\<rparr>\<rparr>,
         if repeat c > 0 then repeat c - 1 else repeat c))"

text \<open>
  \<open>add_packet_timer flt ci w\<close>: admit the command at position \<open>ci\<close>, where \<open>flt\<close> is the
  first call that fails. The result is the function's return value (\<open>NULL\<close>, or the list
  node) and the world it leaves. Each failure branch does what the C branch does and no
  more: \<^verbatim>\<open>free(rx_event)\<close> and \<^verbatim>\<open>return NULL\<close>.
\<close>

definition add_packet_timer :: "admission_fault option \<Rightarrow> nat \<Rightarrow> world \<Rightarrow> ptr \<times> world" where
  "add_packet_timer flt ci w =
     (if flt = Some MallocFails then (NULL, w)
      else
        let a = next_addr w;
            w1 = w\<lparr>next_addr := Suc a\<rparr>
        in
        if flt = Some TimerfdCreateFails then (NULL, w1)
        else
          let f = next_fd w1;
              w2 = w1\<lparr>heap := (heap w1)(a \<mapsto> \<lparr>cmd = ci, fd = f\<rparr>),
                      fds := insert f (fds w1), next_fd := Suc f\<rparr>
          in
          if flt = Some RxEventsAddFails then (NULL, w2\<lparr>heap := (heap w2)(a := None)\<rparr>)
          else
            let w3 = w2\<lparr>evs := rx_events_add (evs w2) a\<rparr>;
                c = cmds w3 ! ci;
                ts = fst (packet_timer_spec c);
                w4 = w3\<lparr>cmds := (cmds w3)[ci := c\<lparr>repeat := snd (packet_timer_spec c)\<rparr>]\<rparr>
            in
            if flt = Some SettimeFails then (NULL, w4\<lparr>heap := (heap w4)(a := None)\<rparr>)
            else
              let w5 = w4\<lparr>timers := (timers w4)(f \<mapsto> ts)\<rparr>
              in
              if flt = Some EpollCtlAddFails then (NULL, w5\<lparr>heap := (heap w5)(a := None)\<rparr>)
              else (Ptr a, w5\<lparr>epoll := (epoll w5)(f \<mapsto> Ptr a)\<rparr>))"

subsection \<open>\<^verbatim>\<open>rx_events_free_all\<close>\<close>

text \<open>
  The loop of \<^verbatim>\<open>rx_events_free_all\<close> over the nodes: \<^verbatim>\<open>close(rx_item->value->fd)\<close>, then
  \<^verbatim>\<open>free(rx_item->value)\<close>. A node's value pointer is never \<open>NULL\<close>; when the wrapper it
  points to has been freed already, the read of \<^verbatim>\<open>fd\<close> and the second \<^verbatim>\<open>free\<close> are
  undefined behaviour, the result \<open>None\<close>. Closing a descriptor also takes it out of
  the epoll interest list.
\<close>

fun free_items :: "nat list \<Rightarrow> world \<Rightarrow> world option" where
  "free_items [] w = Some w"
| "free_items (a # as) w =
     (case heap w a of
        None \<Rightarrow> None
      | Some ev \<Rightarrow>
          free_items as (w\<lparr>fds := fds w - {fd ev},
                           epoll := (epoll w)(fd ev := None),
                           heap := (heap w)(a := None)\<rparr>))"

definition rx_events_free_all :: "world \<Rightarrow> world option" where
  "rx_events_free_all w =
     (case free_items (evs w) w of
        None \<Rightarrow> None
      | Some w' \<Rightarrow> Some (w'\<lparr>evs := rx_events_free (evs w')\<rparr>))"

subsection \<open>\<^verbatim>\<open>tx_main\<close>\<close>

definition MAX_EVENTS :: nat where
  "MAX_EVENTS = 10"

text \<open>
  \<^verbatim>\<open>epoll_wait(efd, events, MAX_EVENTS, -1)\<close>: of the timers the environment reports as
  expired, the kernel returns those in the interest list, each descriptor once, with the
  \<^verbatim>\<open>data.ptr\<close> it was registered with, and at most \<open>MAX_EVENTS\<close> of them.
\<close>

fun ready_events :: "(nat \<rightharpoonup> ptr) \<Rightarrow> nat set \<Rightarrow> firing list \<Rightarrow> (ptr \<times> firing) list" where
  "ready_events ep seen [] = []"
| "ready_events ep seen (f # fs) =
     (if ready_fd f \<in> seen then ready_events ep seen fs
      else case ep (ready_fd f) of
             None \<Rightarrow> ready_events ep seen fs
           | Some p \<Rightarrow> (p, f) # ready_events ep (insert (ready_fd f) seen) fs)"

definition epoll_wait :: "firing list \<Rightarrow> world \<Rightarrow> (ptr \<times> firing) list" where
  "epoll_wait fs w = take MAX_EVENTS (ready_events (epoll w) {} fs)"

text \<open>What one pass through the body of the \<^verbatim>\<open>for\<close> loop ends with: undefined
  behaviour, \<^verbatim>\<open>exiting = 1; break\<close>, or the next iteration.\<close>

datatype step = Undefined_step | Break world | Next world

text \<open>
  Lines 185 to 194: \<^verbatim>\<open>read\<close> the expiration count; when the event was retired
  (\<open>closing\<close>), \<^verbatim>\<open>close\<close> its descriptor and \<^verbatim>\<open>free\<close> the wrapper at address \<open>a\<close>. The
  variable \<open>closing\<close> is reset before the next iteration can read it, so it is local here.
\<close>

definition drain :: "firing \<Rightarrow> nat \<Rightarrow> rx_event \<Rightarrow> bool \<Rightarrow> world \<Rightarrow> step" where
  "drain f a ev closing w =
     (if read_err f then Break w
      else if closing then
        Next (w\<lparr>fds := fds w - {fd ev},
                epoll := (epoll w)(fd ev := None),
                heap := (heap w)(a := None)\<rparr>)
      else Next w)"

text \<open>
  Lines 164 to 198, for one returned event. A \<open>NULL\<close> \<^verbatim>\<open>data.ptr\<close> is the \<^verbatim>\<open>else\<close> branch
  of line 195. Reading through a pointer to a freed wrapper is undefined behaviour.
  \<^verbatim>\<open>rx_event->cmd\<close> is never \<open>NULL\<close>: \<^verbatim>\<open>add_packet_timer\<close> sets it.
\<close>

definition dispatch :: "ptr \<times> firing \<Rightarrow> world \<Rightarrow> step" where
  "dispatch pf w =
     (case fst pf of
        NULL \<Rightarrow> Break w
      | Ptr a \<Rightarrow>
          (case heap w a of
             None \<Rightarrow> Undefined_step
           | Some ev \<Rightarrow>
               let f = snd pf;
                   ci = cmd ev;
                   w1 = w\<lparr>trace := trace w @ [Send ci (\<not> send_err f)]\<rparr>
               in
               if send_err f then Break w1
               else
                 let c = cmds w1 ! ci in
                 if repeat c > 0 then
                   drain f a ev False (w1\<lparr>cmds := (cmds w1)[ci := c\<lparr>repeat := repeat c - 1\<rparr>]\<rparr>)
                 else if repeat c = 0 then
                   let w2 = w1\<lparr>evs := rx_events_rm (evs w1) a\<rparr> in
                   if del_err f then Break w2
                   else drain f a ev True (w2\<lparr>epoll := (epoll w2)(fd ev := None)\<rparr>)
                 else drain f a ev False w1))"

text \<open>The \<^verbatim>\<open>for\<close> loop over the returned events, in the order returned.\<close>

fun dispatch_all :: "(ptr \<times> firing) list \<Rightarrow> world \<Rightarrow> step" where
  "dispatch_all [] w = Next w"
| "dispatch_all (pf # pfs) w =
     (case dispatch pf w of
        Undefined_step \<Rightarrow> Undefined_step
      | Break w' \<Rightarrow> Break w'
      | Next w' \<Rightarrow> dispatch_all pfs w')"

text \<open>
  How a run ends: in undefined behaviour; blocked in \<^verbatim>\<open>epoll_wait\<close> with the environment's
  results used up; or returning a value.
\<close>

datatype outcome = Undefined | Blocked world | Returned int world

text \<open>
  The \<^verbatim>\<open>while (evs->head && !exiting)\<close> loop, by recursion over the results of the
  successive waits. \<open>Returned e w\<close> is the loop left with \<open>exiting = e\<close>.
\<close>

fun tx_loop :: "wait_result list \<Rightarrow> world \<Rightarrow> outcome" where
  "tx_loop [] w = (if evs w = [] then Returned 0 w else Blocked w)"
| "tx_loop (r # rs) w =
     (if evs w = [] then Returned 0 w
      else
        let w1 = w\<lparr>trace := trace w @ [Wait]\<rparr> in
        case r of
          WaitFails \<Rightarrow> Returned 1 w1
        | Ready fs \<Rightarrow>
            (case dispatch_all (epoll_wait fs w1) w1 of
               Undefined_step \<Rightarrow> Undefined
             | Break w' \<Rightarrow> Returned 1 w'
             | Next w' \<Rightarrow> tx_loop rs w'))"

text \<open>
  The admission loop of lines 146 to 153 over the command list, \<open>ci\<close> the position of the
  next command; \<open>True\<close> when every command was admitted.
\<close>

fun tx_admit :: "(nat \<Rightarrow> admission_fault option) \<Rightarrow> nat \<Rightarrow> packet_command list \<Rightarrow> world
                 \<Rightarrow> bool \<times> world" where
  "tx_admit adm ci [] w = (True, w)"
| "tx_admit adm ci (c # rest) w =
     (case add_packet_timer (adm ci) ci w of
        (NULL, w') \<Rightarrow> (False, w')
      | (Ptr _, w') \<Rightarrow> tx_admit adm (Suc ci) rest w')"

text \<open>Lines 202 and 203 (and 149, 150): \<^verbatim>\<open>close(efd)\<close>, which drops the interest list,
  then \<^verbatim>\<open>rx_events_free_all(evs)\<close>.\<close>

definition teardown :: "int \<Rightarrow> world \<Rightarrow> outcome" where
  "teardown ret w =
     (case rx_events_free_all (w\<lparr>efd_open := False, epoll := Map.empty\<rparr>) of
        None \<Rightarrow> Undefined
      | Some w' \<Rightarrow> Returned ret w')"

text \<open>The world when \<^verbatim>\<open>tx_main\<close> starts: the epoll descriptor open, nothing else.\<close>

definition start :: "packet_command list \<Rightarrow> world" where
  "start lst = \<lparr>cmds = lst, heap = Map.empty, fds = {}, timers = Map.empty, evs = [],
                 efd_open = True, epoll = Map.empty, trace = [], next_addr = 0, next_fd = 0\<rparr>"

text \<open>
  \<^verbatim>\<open>tx_main\<close>. The parameters \<^verbatim>\<open>map\<close> and \<^verbatim>\<open>ipc\<close> are not used by the function.
\<close>

definition tx_main :: "env \<Rightarrow> packet_command list \<Rightarrow> outcome" where
  "tx_main e lst =
     (if init_fails e then Returned (- 1) (start lst)
      else
        case tx_admit (admission e) 0 lst (start lst) of
          (False, w) \<Rightarrow> teardown (- 1) w
        | (True, w) \<Rightarrow>
            (case tx_loop (waits e) w of
               Undefined \<Rightarrow> Undefined
             | Blocked w' \<Rightarrow> Blocked w'
             | Returned ex w' \<Rightarrow> teardown ex w'))"

subsection \<open>Auxiliary definitions for the statements\<close>

text \<open>A \<^verbatim>\<open>struct timespec\<close> as a number of nanoseconds.\<close>

definition timespec_ns :: "timespec \<Rightarrow> int" where
  "timespec_ns t = tv_sec t * 1000000000 + tv_nsec t"

text \<open>How often the sender has sent the packet of command \<open>i\<close> successfully.\<close>

definition sends :: "nat \<Rightarrow> world \<Rightarrow> nat" where
  "sends i w = count_list (trace w) (Send i True)"

text \<open>Concrete inputs: a command, and a timer that fires with every call succeeding.\<close>

definition command :: "int \<Rightarrow> int \<Rightarrow> packet_command" where
  "command t r = \<lparr>sender = 0, pkt = 0, timeout = t, repeat = r\<rparr>"

definition fires :: "nat \<Rightarrow> firing" where
  "fires f = \<lparr>ready_fd = f, send_err = False, del_err = False, read_err = False\<rparr>"

text \<open>The event of command \<open>i\<close> is in the registry: some node holds a live wrapper whose
  \<open>cmd\<close> is \<open>i\<close>.\<close>

definition scheduled :: "nat \<Rightarrow> world \<Rightarrow> bool" where
  "scheduled i w \<longleftrightarrow>
     (\<exists>a \<in> set (evs w). case heap w a of None \<Rightarrow> False | Some ev \<Rightarrow> cmd ev = i)"

subsection \<open>Invariants\<close>

text \<open>No call of the sender in the trace has failed.\<close>

definition clean :: "call list \<Rightarrow> bool" where
  "clean tr \<longleftrightarrow> (\<forall>i. Send i False \<notin> set tr)"

text \<open>At most one call of the sender has failed, and it is the last call of the trace.\<close>

definition halted :: "call list \<Rightarrow> bool" where
  "halted tr \<longleftrightarrow> clean tr \<or> (\<exists>i pre. tr = pre @ [Send i False] \<and> clean pre)"

text \<open>
  While the commands are admitted, before position \<open>k\<close>: nothing has been sent; the
  commands before \<open>k\<close> have the counter \<^verbatim>\<open>add_packet_timer\<close> left, the others are as the
  caller gave them.
\<close>

definition admitting :: "packet_command list \<Rightarrow> nat \<Rightarrow> world \<Rightarrow> bool" where
  "admitting lst k w \<longleftrightarrow>
     length (cmds w) = length lst \<and> trace w = [] \<and>
     (\<forall>i < length lst.
        if i < k then repeat (cmds w ! i) = snd (packet_timer_spec (lst ! i))
        else cmds w ! i = lst ! i)"

text \<open>
  After \<open>k\<close> successful admissions: the \<open>k\<close>-th wrapper and the \<open>k\<close>-th descriptor are both
  named \<open>k\<close> (each admission takes one fresh name of each kind), the registry holds the
  nodes \<open>0, \<dots>, k - 1\<close> in order, and the interest list is exactly the registry.
\<close>

definition admitted :: "packet_command list \<Rightarrow> nat \<Rightarrow> world \<Rightarrow> bool" where
  "admitted lst k w \<longleftrightarrow>
     admitting lst k w \<and> next_addr w = k \<and> next_fd w = k \<and> evs w = [0..<k] \<and>
     (\<forall>a < k. heap w a = Some \<lparr>cmd = a, fd = a\<rparr>) \<and>
     (\<forall>f. epoll w f = (if f < k then Some (Ptr f) else None))"

text \<open>After a failed admission: nothing has been sent, and each counter is the caller's
  or the one \<^verbatim>\<open>add_packet_timer\<close> leaves.\<close>

definition aborted :: "packet_command list \<Rightarrow> world \<Rightarrow> bool" where
  "aborted lst w \<longleftrightarrow>
     length (cmds w) = length lst \<and> trace w = [] \<and>
     (\<forall>i < length lst.
        repeat (cmds w ! i) = repeat (lst ! i) \<or>
        repeat (cmds w ! i) = snd (packet_timer_spec (lst ! i)))"

text \<open>
  The counter of command \<open>i\<close>, whose \<open>repeat\<close> the caller gave in \<open>lst\<close>. A negative
  counter never changes and its event stays in the registry. Otherwise, while the event
  is in the registry, the packets sent, the remaining counter and the firing that
  retires the event add up to \<open>max repeat 1\<close>; once it is out of the registry, exactly
  \<open>max repeat 1\<close> packets have been sent.
\<close>

definition counted :: "packet_command list \<Rightarrow> world \<Rightarrow> nat \<Rightarrow> bool" where
  "counted lst w i \<longleftrightarrow>
     (repeat (lst ! i) < 0 \<longrightarrow> repeat (cmds w ! i) = repeat (lst ! i) \<and> i \<in> set (evs w)) \<and>
     (0 \<le> repeat (lst ! i) \<longrightarrow>
        (if i \<in> set (evs w)
         then 0 \<le> repeat (cmds w ! i) \<and>
              int (sends i w) + repeat (cmds w ! i) + 1 = max (repeat (lst ! i)) 1
         else repeat (cmds w ! i) = 0 \<and> int (sends i w) = max (repeat (lst ! i)) 1))"

text \<open>The registry at any point of the loop: no node twice, every node with its live
  wrapper, every command counted.\<close>

definition running :: "packet_command list \<Rightarrow> world \<Rightarrow> bool" where
  "running lst w \<longleftrightarrow>
     length (cmds w) = length lst \<and> distinct (evs w) \<and>
     (\<forall>a \<in> set (evs w). a < length lst \<and> heap w a = Some \<lparr>cmd = a, fd = a\<rparr>) \<and>
     (\<forall>i < length lst. counted lst w i)"

text \<open>The interest list is exactly the registry: a descriptor is registered, with its
  node as \<^verbatim>\<open>data.ptr\<close>, if and only if the node is in the registry.\<close>

definition hooked :: "world \<Rightarrow> bool" where
  "hooked w \<longleftrightarrow>
     (\<forall>f. epoll w f = (if f \<in> set (evs w) then Some (Ptr f) else None))"


subsection \<open>Runs in which no call fails\<close>

text \<open>A firing all of whose calls succeed.\<close>

definition quiet :: "firing \<Rightarrow> bool" where
  "quiet f \<longleftrightarrow> \<not> send_err f \<and> \<not> del_err f \<and> \<not> read_err f"

text \<open>
  The environment reports the timer with descriptor \<open>i\<close> as expired in this wait. The
  timer of the command at position \<open>i\<close> is descriptor \<open>i\<close>: admission hands out the
  descriptors in order.
\<close>

definition expired :: "nat \<Rightarrow> wait_result \<Rightarrow> bool" where
  "expired i r = (case r of WaitFails \<Rightarrow> False | Ready fs \<Rightarrow> i \<in> ready_fd ` set fs)"

text \<open>In how many of the waits the timer \<open>i\<close> is reported as expired.\<close>

definition fired :: "nat \<Rightarrow> wait_result list \<Rightarrow> nat" where
  "fired i ws = length (filter (expired i) ws)"

text \<open>A wait that succeeds, reports no more timers than \<^verbatim>\<open>epoll_wait\<close> can return at
  once, and whose dispatches all succeed.\<close>

definition calm_wait :: "wait_result \<Rightarrow> bool" where
  "calm_wait r =
     (case r of WaitFails \<Rightarrow> False
      | Ready fs \<Rightarrow> length fs \<le> MAX_EVENTS \<and> (\<forall>f \<in> set fs. quiet f))"

text \<open>An environment in which no call fails, from \<^verbatim>\<open>rx_events_init\<close> and the admission
  of every command of \<open>lst\<close> to every wait and dispatch.\<close>

definition calm :: "env \<Rightarrow> packet_command list \<Rightarrow> bool" where
  "calm e lst \<longleftrightarrow>
     \<not> init_fails e \<and> (\<forall>k < length lst. admission e k = None) \<and>
     (\<forall>r \<in> set (waits e). calm_wait r)"

text \<open>How many packets a command with the given \<open>repeat\<close> has sent after its timer has
  expired in \<open>k\<close> waits: every one when \<open>repeat\<close> is negative, at most \<open>max repeat 1\<close>
  otherwise.\<close>

definition expected :: "int \<Rightarrow> nat \<Rightarrow> nat" where
  "expected n k = (if n < 0 then k else min (nat (max n 1)) k)"

subsection \<open>Concrete runs\<close>

text \<open>A command to send once and a command to send three times; an environment in which
  every call succeeds and the timers fire until both schedules are exhausted.\<close>

definition two_commands :: "packet_command list" where
  "two_commands = [command 0 0, command 1 3]"

definition three_cycles :: env where
  "three_cycles = \<lparr>init_fails = False, admission = (\<lambda>k. None),
                    waits = [Ready [fires 0, fires 1], Ready [fires 1], Ready [fires 1]]\<rparr>"

text \<open>The same without the last firing: the second command remains scheduled.\<close>

definition two_cycles :: env where
  "two_cycles = \<lparr>init_fails = False, admission = (\<lambda>k. None),
                  waits = [Ready [fires 0, fires 1], Ready [fires 1]]\<rparr>"

text \<open>The sender fails on the packet of command 0, between two firings of command 1.\<close>

definition send_fails :: env where
  "send_fails = \<lparr>init_fails = False, admission = (\<lambda>k. None),
                  waits = [Ready [fires 1, (fires 0)\<lparr>send_err := True\<rparr>, fires 1],
                           Ready [fires 1]]\<rparr>"

text \<open>Two firings of the only timer, then nothing more.\<close>

definition forever :: env where
  "forever = \<lparr>init_fails = False, admission = (\<lambda>k. None),
               waits = [Ready [fires 0], Ready [fires 0]]\<rparr>"

text \<open>The second admission fails: in \<^verbatim>\<open>rx_events_add\<close>, or in \<^verbatim>\<open>epoll_ctl\<close>.\<close>

definition add_fails_second :: env where
  "add_fails_second = \<lparr>init_fails = False,
                         admission = (\<lambda>k. if k = 1 then Some RxEventsAddFails else None),
                         waits = []\<rparr>"

definition epoll_add_fails_second :: env where
  "epoll_add_fails_second = \<lparr>init_fails = False,
                               admission = (\<lambda>k. if k = 1 then Some EpollCtlAddFails else None),
                               waits = []\<rparr>"

text \<open>The first firing retires the event, and \<^verbatim>\<open>epoll_ctl(EPOLL_CTL_DEL)\<close>, or the
  \<^verbatim>\<open>read\<close> after it, fails.\<close>

definition del_fails :: env where
  "del_fails = \<lparr>init_fails = False, admission = (\<lambda>k. None),
                 waits = [Ready [(fires 0)\<lparr>del_err := True\<rparr>]]\<rparr>"

definition drain_fails :: env where
  "drain_fails = \<lparr>init_fails = False, admission = (\<lambda>k. None),
                   waits = [Ready [(fires 0)\<lparr>read_err := True\<rparr>]]\<rparr>"


section \<open>Properties\<close>


subsection \<open>The arming of a timer\<close>

text \<open>
  Claim C4. \<^verbatim>\<open>add_packet_timer\<close> arms the timer it creates (the descriptor \<open>next_fd w\<close>) as
  follows. For \<open>repeat = 0\<close> or \<open>repeat = 1\<close> the initial delay is \<open>max timeout 0\<close> seconds
  (the nanosecond field is the constant 1), there is no interval, and the counter is 0
  afterwards. For \<open>repeat > 1\<close> or \<open>repeat < 0\<close> the initial delay is one nanosecond, the
  smallest positive \<^verbatim>\<open>timespec\<close>; the interval is \<open>timeout\<close> seconds when \<open>timeout > 0\<close>
  and the non-zero 10000 nanoseconds otherwise; and the counter is decremented once when
  it is positive.
\<close>

theorem add_packet_timer_arm_parameters:
  assumes "ci < length (cmds w)" and "flt = None \<or> flt = Some EpollCtlAddFails"
  shows "let c = cmds w ! ci; w' = snd (add_packet_timer flt ci w) in
         \<exists>ts. timers w' (next_fd w) = Some ts \<and>
           (repeat c = 0 \<or> repeat c = 1 \<longrightarrow>
              it_value ts = \<lparr>tv_sec = max (timeout c) 0, tv_nsec = 1\<rparr> \<and>
              it_interval ts = \<lparr>tv_sec = 0, tv_nsec = 0\<rparr> \<and>
              repeat (cmds w' ! ci) = 0) \<and>
           (repeat c > 1 \<or> repeat c < 0 \<longrightarrow>
              it_value ts = \<lparr>tv_sec = 0, tv_nsec = 1\<rparr> \<and>
              it_interval ts = (if timeout c > 0 then \<lparr>tv_sec = timeout c, tv_nsec = 0\<rparr>
                                else \<lparr>tv_sec = 0, tv_nsec = 10000\<rparr>) \<and>
              it_interval ts \<noteq> \<lparr>tv_sec = 0, tv_nsec = 0\<rparr> \<and>
              repeat (cmds w' ! ci) = (if repeat c > 0 then repeat c - 1 else repeat c))"
  using assms
  by (auto simp: add_packet_timer_def packet_timer_spec_def Let_def max_def)

theorem add_packet_timer_arm_parameters_witness:
  "(let w' = snd (add_packet_timer None 0 (start [command 2 3]))
    in timers w' 0 = Some \<lparr>it_interval = \<lparr>tv_sec = 2, tv_nsec = 0\<rparr>,
                             it_value = \<lparr>tv_sec = 0, tv_nsec = 1\<rparr>\<rparr>
       \<and> repeat (cmds w' ! 0) = 2) \<and>
   (let w' = snd (add_packet_timer None 0 (start [command (- 5) 1]))
    in timers w' 0 = Some \<lparr>it_interval = \<lparr>tv_sec = 0, tv_nsec = 0\<rparr>,
                             it_value = \<lparr>tv_sec = 0, tv_nsec = 1\<rparr>\<rparr>
       \<and> repeat (cmds w' ! 0) = 0) \<and>
   (let w' = snd (add_packet_timer None 0 (start [command 7 0]))
    in timers w' 0 = Some \<lparr>it_interval = \<lparr>tv_sec = 0, tv_nsec = 0\<rparr>,
                             it_value = \<lparr>tv_sec = 7, tv_nsec = 1\<rparr>\<rparr>
       \<and> repeat (cmds w' ! 0) = 0)"
  using add_packet_timer_arm_parameters [of 0 "start [command 2 3]" None]
        add_packet_timer_arm_parameters [of 0 "start [command (- 5) 1]" None]
        add_packet_timer_arm_parameters [of 0 "start [command 7 0]" None]
  by (auto simp: start_def command_def Let_def)

text \<open>
  Claim C10. Whatever the command, the initial expiration \<^verbatim>\<open>it_value\<close> the timer is armed
  with has the nanosecond field 1, so it is never the all-zero value that disarms a
  timer, and the delay is positive. For \<open>repeat = 0\<close> or \<open>repeat = 1\<close> the delay is
  \<open>max timeout 0\<close> seconds plus one nanosecond; with \<open>timeout = 0\<close> the timer is armed
  with one nanosecond and fires.
\<close>

theorem add_packet_timer_value_nonzero:
  assumes "ci < length (cmds w)" and "flt = None \<or> flt = Some EpollCtlAddFails"
  shows "let c = cmds w ! ci; w' = snd (add_packet_timer flt ci w) in
         \<exists>ts. timers w' (next_fd w) = Some ts \<and>
           tv_nsec (it_value ts) = 1 \<and>
           it_value ts \<noteq> \<lparr>tv_sec = 0, tv_nsec = 0\<rparr> \<and>
           0 < timespec_ns (it_value ts) \<and>
           (repeat c = 0 \<or> repeat c = 1 \<longrightarrow>
              timespec_ns (it_value ts) = max (timeout c) 0 * 1000000000 + 1)"
  using assms
  by (auto simp: add_packet_timer_def packet_timer_spec_def Let_def max_def timespec_ns_def)

theorem add_packet_timer_value_nonzero_witness:
  "\<exists>ts. timers (snd (add_packet_timer None 0 (start [command 0 0]))) 0 = Some ts \<and>
        timespec_ns (it_value ts) = 1"
  using add_packet_timer_value_nonzero [of 0 "start [command 0 0]" None]
  by (auto simp: start_def command_def Let_def)

subsection \<open>Teardown and the empty command list\<close>

text \<open>
  Claim C9. \<^verbatim>\<open>rx_events_free_all\<close> on an empty registry succeeds and changes nothing: no
  descriptor is closed and no wrapper is freed.
\<close>

theorem rx_events_free_all_empty:
  "evs w = [] \<Longrightarrow> rx_events_free_all w = Some w"
  by (simp add: rx_events_free_all_def rx_events_free_def)

theorem rx_events_free_all_empty_witness:
  "evs (start []) = [] \<and> rx_events_free_all (start []) = Some (start [])"
  using rx_events_free_all_empty [of "start []"]
  by (simp add: start_def)

text \<open>
  Claim C8. When \<^verbatim>\<open>rx_events_init\<close> succeeds, \<^verbatim>\<open>tx_main\<close> on the empty command list
  returns 0 (success), whatever the environment, and has called neither \<^verbatim>\<open>epoll_wait\<close>
  nor a sender.
\<close>

theorem tx_main_empty:
  "\<not> init_fails e \<Longrightarrow>
     \<exists>w. tx_main e [] = Returned 0 w \<and> Wait \<notin> set (trace w) \<and>
         (\<forall>i ok. Send i ok \<notin> set (trace w))"
  by (cases "waits e")
     (simp_all add: tx_main_def start_def teardown_def rx_events_free_all_def rx_events_free_def)

theorem tx_main_empty_witness:
  "\<exists>w. tx_main \<lparr>init_fails = False, admission = (\<lambda>k. None), waits = [WaitFails]\<rparr> [] = Returned 0 w
       \<and> Wait \<notin> set (trace w)"
  using tx_main_empty [of "\<lparr>init_fails = False, admission = (\<lambda>k. None), waits = [WaitFails]\<rparr>"]
  by auto

subsection \<open>Evaluating a run\<close>

text \<open>The defining equations that evaluate \<^verbatim>\<open>tx_main\<close> on a concrete input.\<close>

lemmas run_simps = tx_main_def start_def teardown_def rx_events_free_all_def rx_events_free_def
  add_packet_timer_def Let_def rx_events_add_def rx_events_rm_def packet_timer_spec_def
  epoll_wait_def MAX_EVENTS_def dispatch_def drain_def fires_def command_def


subsection \<open>Admission\<close>

lemma admitted_start: "admitted lst 0 (start lst)"
  by (simp add: admitted_def admitting_def start_def)

lemma apt_None:
  "add_packet_timer None ci w =
     (Ptr (next_addr w),
      w\<lparr>next_addr := Suc (next_addr w), next_fd := Suc (next_fd w),
        heap := (heap w)(next_addr w \<mapsto> \<lparr>cmd = ci, fd = next_fd w\<rparr>),
        fds := insert (next_fd w) (fds w),
        evs := evs w @ [next_addr w],
        cmds := (cmds w)[ci := (cmds w ! ci)\<lparr>repeat := snd (packet_timer_spec (cmds w ! ci))\<rparr>],
        timers := (timers w)(next_fd w \<mapsto> fst (packet_timer_spec (cmds w ! ci))),
        epoll := (epoll w)(next_fd w \<mapsto> Ptr (next_addr w))\<rparr>)"
  by (simp add: add_packet_timer_def Let_def rx_events_add_def)

lemma apt_fault_fst: "flt \<noteq> None \<Longrightarrow> fst (add_packet_timer flt ci w) = NULL"
proof -
  assume "flt \<noteq> None"
  then obtain x where "flt = Some x" by auto
  then show ?thesis by (cases x) (simp_all add: add_packet_timer_def Let_def)
qed

lemma apt_trace: "trace (snd (add_packet_timer flt ci w)) = trace w"
  by (simp add: add_packet_timer_def Let_def)

lemma apt_cmds:
  "cmds (snd (add_packet_timer flt ci w)) = cmds w \<or>
   cmds (snd (add_packet_timer flt ci w)) =
     (cmds w)[ci := (cmds w ! ci)\<lparr>repeat := snd (packet_timer_spec (cmds w ! ci))\<rparr>]"
  by (simp add: add_packet_timer_def Let_def)


lemma admitting_step:
  assumes "admitting lst k w" and "k < length lst"
    and "cmds w' = (cmds w)[k := (cmds w ! k)\<lparr>repeat := snd (packet_timer_spec (cmds w ! k))\<rparr>]"
    and "trace w' = trace w"
  shows "admitting lst (Suc k) w'"
proof -
  have len: "length (cmds w) = length lst" and tr: "trace w = []"
    and old: "\<And>i. i < length lst \<Longrightarrow> i < k \<Longrightarrow> repeat (cmds w ! i) = snd (packet_timer_spec (lst ! i))"
    and new: "\<And>i. i < length lst \<Longrightarrow> \<not> i < k \<Longrightarrow> cmds w ! i = lst ! i"
    using assms(1) unfolding admitting_def by auto
  have "if i < Suc k then repeat (cmds w' ! i) = snd (packet_timer_spec (lst ! i))
         else cmds w' ! i = lst ! i" if i: "i < length lst" for i
  proof -
    consider "i < k" | "i = k" | "k < i" by linarith
    then show ?thesis
    proof cases
      case 1 then show ?thesis using old [OF i] assms(3) by simp
    next
      case 2 then show ?thesis using new [of k] assms(2,3) len by simp
    next
      case 3 then show ?thesis using new [OF i] assms(3) by simp
    qed
  qed
  moreover have "length (cmds w') = length lst" using len assms(3) by simp
  moreover have "trace w' = []" using tr assms(4) by simp
  ultimately show ?thesis unfolding admitting_def by blast
qed

lemma aborted_update:
  assumes "aborted lst w" and "k < length lst" and "cmds w ! k = lst ! k"
  shows "aborted lst (w\<lparr>cmds := (cmds w)[k := (cmds w ! k)\<lparr>repeat := snd (packet_timer_spec (cmds w ! k))\<rparr>]\<rparr>)"
proof -
  have len: "length (cmds w) = length lst" and tr: "trace w = []"
    and old: "\<And>i. i < length lst \<Longrightarrow> repeat (cmds w ! i) = repeat (lst ! i) \<or>
        repeat (cmds w ! i) = snd (packet_timer_spec (lst ! i))"
    using assms(1) unfolding aborted_def by auto
  let ?cs = "(cmds w)[k := (cmds w ! k)\<lparr>repeat := snd (packet_timer_spec (cmds w ! k))\<rparr>]"
  have "repeat (?cs ! i) = repeat (lst ! i) \<or> repeat (?cs ! i) = snd (packet_timer_spec (lst ! i))"
    if i: "i < length lst" for i
  proof (cases "i = k")
    case True
    then show ?thesis using assms(2,3) len by simp
  next
    case False
    then show ?thesis using old [OF i] by simp
  qed
  then show ?thesis unfolding aborted_def using len tr by simp
qed


lemma add_packet_timer_fault:
  assumes "admitting lst k w" and "k < length lst" and "flt \<noteq> None"
  shows "fst (add_packet_timer flt k w) = NULL \<and> aborted lst (snd (add_packet_timer flt k w))"
proof -
  let ?w' = "snd (add_packet_timer flt k w)"
  have len: "length (cmds w) = length lst" and tr: "trace w = []"
    using assms(1) unfolding admitting_def by auto
  have c: "cmds w ! k = lst ! k"
    using assms(1,2) unfolding admitting_def by auto
  have old: "repeat (cmds w ! i) = repeat (lst ! i) \<or>
        repeat (cmds w ! i) = snd (packet_timer_spec (lst ! i))" if "i < length lst" for i
  proof (cases "i < k")
    case True
    then show ?thesis using assms(1) that unfolding admitting_def by auto
  next
    case False
    then have "cmds w ! i = lst ! i" using assms(1) that unfolding admitting_def by auto
    then show ?thesis by simp
  qed
  have ab: "aborted lst w" unfolding aborted_def using len tr old by simp
  have ab': "aborted lst (w\<lparr>cmds := (cmds w)[k := (cmds w ! k)\<lparr>repeat := snd (packet_timer_spec (cmds w ! k))\<rparr>]\<rparr>)"
    by (rule aborted_update [OF ab assms(2) c])
  have "aborted lst ?w'"
  proof -
    have t: "trace ?w' = trace w" by (rule apt_trace)
    from apt_cmds [of flt k w] show ?thesis
    proof
      assume "cmds ?w' = cmds w"
      then show ?thesis using ab t by (simp add: aborted_def)
    next
      assume "cmds ?w' = (cmds w)[k := (cmds w ! k)\<lparr>repeat := snd (packet_timer_spec (cmds w ! k))\<rparr>]"
      then show ?thesis using ab' t by (simp add: aborted_def)
    qed
  qed
  then show ?thesis using apt_fault_fst [OF assms(3)] by simp
qed



lemma add_packet_timer_ok:
  assumes "admitted lst k w" and "k < length lst"
  shows "\<exists>w'. add_packet_timer None k w = (Ptr k, w') \<and> admitted lst (Suc k) w'"
proof -
  define w' where "w' = snd (add_packet_timer None k w)"
  have nk: "next_addr w = k" "next_fd w = k" "evs w = [0..<k]"
    and adm: "admitting lst k w"
    and hp: "\<forall>a < k. heap w a = Some \<lparr>cmd = a, fd = a\<rparr>"
    and ep: "\<forall>f. epoll w f = (if f < k then Some (Ptr f) else None)"
    using assms(1) unfolding admitted_def by blast+
  have eq: "add_packet_timer None k w = (Ptr k, w')"
    unfolding w'_def by (simp add: apt_None nk)
  have f_cmds: "cmds w' = (cmds w)[k := (cmds w ! k)\<lparr>repeat := snd (packet_timer_spec (cmds w ! k))\<rparr>]"
    and f_trace: "trace w' = trace w"
    and f_heap: "heap w' = (heap w)(k \<mapsto> \<lparr>cmd = k, fd = k\<rparr>)"
    and f_epoll: "epoll w' = (epoll w)(k \<mapsto> Ptr k)"
    and f_evs: "evs w' = [0..<Suc k]"
    and f_na: "next_addr w' = Suc k" and f_nf: "next_fd w' = Suc k"
    unfolding w'_def by (simp_all add: apt_None nk)
  have a1: "admitting lst (Suc k) w'"
    by (rule admitting_step [OF adm assms(2) f_cmds f_trace])
  have A3: "\<forall>a < Suc k. heap w' a = Some \<lparr>cmd = a, fd = a\<rparr>"
    using hp by (simp add: f_heap less_Suc_eq)
  have A4: "\<forall>f. epoll w' f = (if f < Suc k then Some (Ptr f) else None)"
    using ep by (simp add: f_epoll less_Suc_eq)
  have "admitted lst (Suc k) w'"
    unfolding admitted_def by (intro conjI) (rule a1 f_na f_nf f_evs A3 A4)+
  then show ?thesis using eq by blast
qed


lemma tx_admit_cases:
  assumes "admitted lst k w" and "k + length rest = length lst"
  shows "case tx_admit adm k rest w of
           (True, w') \<Rightarrow> admitted lst (length lst) w'
         | (False, w') \<Rightarrow> aborted lst w'"
  using assms
proof (induction rest arbitrary: k w)
  case Nil
  then show ?case by simp
next
  case (Cons c rest)
  then have k: "k < length lst" by simp
  show ?case
  proof (cases "adm k")
    case None
    obtain w' where w': "add_packet_timer None k w = (Ptr k, w')" "admitted lst (Suc k) w'"
      using add_packet_timer_ok [OF Cons.prems(1) k] by blast
    have "Suc k + length rest = length lst" using Cons.prems(2) by simp
    from Cons.IH [OF w'(2) this] show ?thesis using None w'(1) by simp
  next
    case (Some x)
    have adm: "admitting lst k w" using Cons.prems(1) unfolding admitted_def by blast
    have "fst (add_packet_timer (adm k) k w) = NULL \<and> aborted lst (snd (add_packet_timer (adm k) k w))"
      using add_packet_timer_fault [OF adm k] Some by simp
    then show ?thesis by (cases "add_packet_timer (adm k) k w") simp
  qed
qed

lemma spec_counter:
  "snd (packet_timer_spec c) = (if repeat c > 0 then repeat c - 1 else repeat c)"
  by (simp add: packet_timer_spec_def)

lemma admitted_running:
  assumes "admitted lst (length lst) w"
  shows "running lst w \<and> hooked w \<and> clean (trace w)"
proof -
  have adm: "admitting lst (length lst) w" and e: "evs w = [0..<length lst]"
    and hp: "\<forall>a < length lst. heap w a = Some \<lparr>cmd = a, fd = a\<rparr>"
    and ep: "\<forall>f. epoll w f = (if f < length lst then Some (Ptr f) else None)"
    using assms unfolding admitted_def by blast+
  have len: "length (cmds w) = length lst" and tr: "trace w = []"
    using adm unfolding admitting_def by blast+
  have r: "repeat (cmds w ! i) = snd (packet_timer_spec (lst ! i))" if "i < length lst" for i
    using adm that unfolding admitting_def by simp
  have s: "sends i w = 0" for i by (simp add: sends_def tr)
  have "running lst w"
    unfolding running_def counted_def
    using e len hp by (simp add: r s spec_counter)
  moreover have "hooked w" unfolding hooked_def using e ep by simp
  moreover have "clean (trace w)" by (simp add: tr clean_def)
  ultimately show ?thesis by simp
qed


subsection \<open>One dispatch\<close>

text \<open>The dispatch of an event whose wrapper is live, branch by branch.\<close>

lemma dispatch_eq:
  assumes "heap w a = Some \<lparr>cmd = a, fd = a\<rparr>"
  shows "dispatch (Ptr a, f) w =
    (let w1 = w\<lparr>trace := trace w @ [Send a (\<not> send_err f)]\<rparr>;
         c = cmds w ! a
     in if send_err f then Break w1
        else if repeat c > 0 then
          (let w2 = w1\<lparr>cmds := (cmds w)[a := c\<lparr>repeat := repeat c - 1\<rparr>]\<rparr>
           in if read_err f then Break w2 else Next w2)
        else if repeat c = 0 then
          (let w2 = w1\<lparr>evs := remove1 a (evs w)\<rparr>;
               w3 = w2\<lparr>epoll := (epoll w)(a := None)\<rparr>
           in if del_err f then Break w2
              else if read_err f then Break w3
              else Next (w3\<lparr>fds := fds w - {a}, heap := (heap w)(a := None)\<rparr>))
        else if read_err f then Break w1 else Next w1)"
  using assms by (simp add: dispatch_def drain_def Let_def rx_events_rm_def)

lemma sends_trace:
  "sends i (w\<lparr>trace := trace w @ [c]\<rparr>) = sends i w + (if c = Send i True then 1 else 0)"
  by (simp add: sends_def)

lemma counted_cong:
  assumes "cmds w' ! i = cmds w ! i" and "sends i w' = sends i w"
    and "i \<in> set (evs w') \<longleftrightarrow> i \<in> set (evs w)"
  shows "counted lst w' i = counted lst w i"
  using assms by (simp add: counted_def)

lemma running_trace_other:
  assumes "running lst w" and "\<And>i. c \<noteq> Send i True"
  shows "running lst (w\<lparr>trace := trace w @ [c]\<rparr>)"
proof -
  have "counted lst (w\<lparr>trace := trace w @ [c]\<rparr>) i = counted lst w i" for i
    by (rule counted_cong) (simp_all add: sends_trace assms(2))
  then show ?thesis using assms(1) by (simp add: running_def)
qed


lemma running_facts:
  assumes "running lst w"
  shows "length (cmds w) = length lst" and "distinct (evs w)"
    and "\<And>a. a \<in> set (evs w) \<Longrightarrow> a < length lst"
    and "\<And>a. a \<in> set (evs w) \<Longrightarrow> heap w a = Some \<lparr>cmd = a, fd = a\<rparr>"
    and "\<And>i. i < length lst \<Longrightarrow> counted lst w i"
  using assms unfolding running_def by blast+

lemma running_dec:
  assumes "running lst w" and "a \<in> set (evs w)" and "0 < repeat (cmds w ! a)"
  shows "running lst (w\<lparr>trace := trace w @ [Send a True],
                        cmds := (cmds w)[a := (cmds w ! a)\<lparr>repeat := repeat (cmds w ! a) - 1\<rparr>]\<rparr>)"
    (is "running lst ?w'")
proof -
  note rf = running_facts [OF assms(1)]
  have al: "a < length lst" by (rule rf(3) [OF assms(2)])
  have "counted lst ?w' i" if i: "i < length lst" for i
  proof (cases "i = a")
    case True
    have "counted lst w a" by (rule rf(5) [OF al])
    then show ?thesis
      using assms(2,3) al rf(1) True by (auto simp: counted_def sends_def)
  next
    case False
    have "counted lst ?w' i = counted lst w i"
      by (rule counted_cong) (use False in \<open>simp_all add: sends_def\<close>)
    then show ?thesis using rf(5) [OF i] by simp
  qed
  then show ?thesis
    unfolding running_def using rf(1-4) by simp
qed

lemma running_rm:
  assumes "running lst w" and "a \<in> set (evs w)" and "repeat (cmds w ! a) = 0"
  shows "running lst (w\<lparr>trace := trace w @ [Send a True], evs := remove1 a (evs w)\<rparr>)"
    (is "running lst ?w'")
proof -
  note rf = running_facts [OF assms(1)]
  have al: "a < length lst" by (rule rf(3) [OF assms(2)])
  have "counted lst ?w' i" if i: "i < length lst" for i
  proof (cases "i = a")
    case True
    have "counted lst w a" by (rule rf(5) [OF al])
    then show ?thesis
      using assms(2,3) rf(2) True by (auto simp: counted_def sends_def)
  next
    case False
    have "counted lst ?w' i = counted lst w i"
      by (rule counted_cong) (use False rf(2) in \<open>simp_all add: sends_def\<close>)
    then show ?thesis using rf(5) [OF i] by simp
  qed
  then show ?thesis
    unfolding running_def using rf(1-4) by simp
qed

lemma running_inf:
  assumes "running lst w" and "a \<in> set (evs w)" and "repeat (cmds w ! a) < 0"
  shows "running lst (w\<lparr>trace := trace w @ [Send a True]\<rparr>)"
    (is "running lst ?w'")
proof -
  note rf = running_facts [OF assms(1)]
  have al: "a < length lst" by (rule rf(3) [OF assms(2)])
  have "counted lst ?w' i" if i: "i < length lst" for i
  proof (cases "i = a")
    case True
    have "counted lst w a" by (rule rf(5) [OF al])
    then show ?thesis
      using assms(2,3) True by (auto simp: counted_def sends_def)
  next
    case False
    have "counted lst ?w' i = counted lst w i"
      by (rule counted_cong) (use False in \<open>simp_all add: sends_def\<close>)
    then show ?thesis using rf(5) [OF i] by simp
  qed
  then show ?thesis
    unfolding running_def using rf(1-4) by simp
qed

lemma running_frame:
  assumes "running lst w" and "cmds w' = cmds w" and "evs w' = evs w" and "trace w' = trace w"
    and "\<And>b. b \<in> set (evs w) \<Longrightarrow> heap w' b = heap w b"
  shows "running lst w'"
proof -
  note rf = running_facts [OF assms(1)]
  have "counted lst w' i = counted lst w i" for i
    by (simp add: counted_def sends_def assms(2,3,4))
  then show ?thesis
    unfolding running_def using rf assms(2,3,5) by simp
qed


lemma clean_snoc: "clean tr \<Longrightarrow> clean (tr @ [Send a True])"
  by (simp add: clean_def)

lemma dispatch_step:
  assumes "running lst w" and "hooked w" and "clean (trace w)" and "a \<in> set (evs w)"
  shows "case dispatch (Ptr a, f) w of
           Undefined_step \<Rightarrow> False
         | Next w' \<Rightarrow> running lst w' \<and> hooked w' \<and> clean (trace w') \<and>
                      set (evs w) - {a} \<subseteq> set (evs w') \<and> set (evs w') \<subseteq> set (evs w)
         | Break w' \<Rightarrow> running lst w' \<and> halted (trace w')"
proof -
  note rf = running_facts [OF assms(1)]
  have h: "heap w a = Some \<lparr>cmd = a, fd = a\<rparr>" by (rule rf(4) [OF assms(4)])
  note d = dispatch_eq [OF h, of f]
  have ep: "\<And>x. epoll w x = (if x \<in> set (evs w) then Some (Ptr x) else None)"
    using assms(2) unfolding hooked_def by blast
  show ?thesis
  proof (cases "send_err f")
    case True
    have "running lst (w\<lparr>trace := trace w @ [Send a False]\<rparr>)"
      by (rule running_trace_other [OF assms(1)]) simp
    moreover have "halted (trace w @ [Send a False])"
      using assms(3) unfolding halted_def by blast
    ultimately show ?thesis using True by (simp add: d Let_def)
  next
    case False
    consider (pos) "0 < repeat (cmds w ! a)" | (zero) "repeat (cmds w ! a) = 0"
      | (neg) "repeat (cmds w ! a) < 0" by linarith
    then show ?thesis
    proof cases
      case pos
      let ?w' = "w\<lparr>trace := trace w @ [Send a True],
                   cmds := (cmds w)[a := (cmds w ! a)\<lparr>repeat := repeat (cmds w ! a) - 1\<rparr>]\<rparr>"
      have r: "running lst ?w'" by (rule running_dec [OF assms(1,4) pos])
      have hk: "hooked ?w'" using assms(2) by (simp add: hooked_def)
      have cl: "clean (trace ?w')" using assms(3) by (simp add: clean_snoc)
      have hl: "halted (trace ?w')" using cl by (simp add: halted_def)
      show ?thesis using False pos r hk cl hl by (simp add: d Let_def)
    next
      case zero
      let ?w2 = "w\<lparr>trace := trace w @ [Send a True], evs := remove1 a (evs w)\<rparr>"
      let ?w3 = "?w2\<lparr>epoll := (epoll w)(a := None)\<rparr>"
      let ?w4 = "?w3\<lparr>fds := fds w - {a}, heap := (heap w)(a := None)\<rparr>"
      have r2: "running lst ?w2" by (rule running_rm [OF assms(1,4) zero])
      have r3: "running lst ?w3" by (rule running_frame [OF r2]) simp_all
      have r4: "running lst ?w4" by (rule running_frame [OF r2]) (use rf(2) in simp_all)
      have cl: "clean (trace w @ [Send a True])" using assms(3) by (simp add: clean_snoc)
      then have hl: "halted (trace w @ [Send a True])" by (simp add: halted_def)
      have hk: "hooked ?w4" unfolding hooked_def using rf(2) by (simp add: ep)
      show ?thesis
        using False zero r2 r3 r4 cl hl hk rf(2) by (auto simp: d Let_def)
    next
      case neg
      let ?w' = "w\<lparr>trace := trace w @ [Send a True]\<rparr>"
      have r: "running lst ?w'" by (rule running_inf [OF assms(1,4) neg])
      have hk: "hooked ?w'" using assms(2) by (simp add: hooked_def)
      have cl: "clean (trace ?w')" using assms(3) by (simp add: clean_snoc)
      have hl: "halted (trace ?w')" using cl by (simp add: halted_def)
      show ?thesis using False neg r hk cl hl by (simp add: d Let_def)
    qed
  qed
qed


subsection \<open>One wait cycle\<close>

text \<open>When the interest list is the registry, \<^verbatim>\<open>epoll_wait\<close> returns nodes of the
  registry, each at most once.\<close>

lemma ready_events_tags:
  assumes "\<And>x. ep x = (if x \<in> S then Some (Ptr x) else None)"
  shows "fst ` set (ready_events ep seen fs) \<subseteq> Ptr ` (S - seen)"
proof (induction fs arbitrary: seen)
  case Nil
  then show ?case by simp
next
  case (Cons f fs)
  show ?case
  proof (cases "ready_fd f \<in> seen \<or> ready_fd f \<notin> S")
    case True
    then have "ready_fd f \<in> seen \<or> ep (ready_fd f) = None" using assms [of "ready_fd f"] by auto
    then have "ready_events ep seen (f # fs) = ready_events ep seen fs" by auto
    then show ?thesis using Cons.IH [of seen] by simp
  next
    case False
    then have e: "ep (ready_fd f) = Some (Ptr (ready_fd f))" using assms [of "ready_fd f"] by simp
    have "fst ` set (ready_events ep (insert (ready_fd f) seen) fs) \<subseteq> Ptr ` (S - seen)"
      using Cons.IH [of "insert (ready_fd f) seen"] by blast
    then show ?thesis using False e by simp
  qed
qed

lemma ready_events_distinct:
  assumes "\<And>x. ep x = (if x \<in> S then Some (Ptr x) else None)"
  shows "distinct (map fst (ready_events ep seen fs))"
proof (induction fs arbitrary: seen)
  case Nil
  then show ?case by simp
next
  case (Cons f fs)
  show ?case
  proof (cases "ready_fd f \<in> seen \<or> ready_fd f \<notin> S")
    case True
    then have "ready_fd f \<in> seen \<or> ep (ready_fd f) = None" using assms [of "ready_fd f"] by auto
    then have "ready_events ep seen (f # fs) = ready_events ep seen fs" by auto
    then show ?thesis using Cons.IH [of seen] by simp
  next
    case False
    then have e: "ep (ready_fd f) = Some (Ptr (ready_fd f))" using assms [of "ready_fd f"] by simp
    have "fst ` set (ready_events ep (insert (ready_fd f) seen) fs)
            \<subseteq> Ptr ` (S - insert (ready_fd f) seen)"
      by (rule ready_events_tags [OF assms])
    then have "Ptr (ready_fd f) \<notin> fst ` set (ready_events ep (insert (ready_fd f) seen) fs)"
      by blast
    then show ?thesis
      using False e Cons.IH [of "insert (ready_fd f) seen"] by simp
  qed
qed

lemma epoll_wait_pending:
  assumes "hooked w"
  shows "distinct (map fst (epoll_wait fs w))"
    and "fst ` set (epoll_wait fs w) \<subseteq> Ptr ` set (evs w)"
proof -
  have ep: "\<And>x. epoll w x = (if x \<in> set (evs w) then Some (Ptr x) else None)"
    using assms unfolding hooked_def by blast
  have "distinct (take MAX_EVENTS (map fst (ready_events (epoll w) {} fs)))"
    by (rule distinct_take) (rule ready_events_distinct [OF ep])
  then show "distinct (map fst (epoll_wait fs w))"
    by (simp add: epoll_wait_def take_map)
  have "set (epoll_wait fs w) \<subseteq> set (ready_events (epoll w) {} fs)"
    unfolding epoll_wait_def by (rule set_take_subset)
  then have "fst ` set (epoll_wait fs w) \<subseteq> fst ` set (ready_events (epoll w) {} fs)"
    by blast
  also have "\<dots> \<subseteq> Ptr ` (set (evs w) - {})"
    by (rule ready_events_tags [OF ep])
  finally show "fst ` set (epoll_wait fs w) \<subseteq> Ptr ` set (evs w)" by simp
qed

lemma dispatch_all_step:
  assumes "running lst w" and "hooked w" and "clean (trace w)"
    and "distinct (map fst ps)" and "fst ` set ps \<subseteq> Ptr ` set (evs w)"
  shows "case dispatch_all ps w of
           Undefined_step \<Rightarrow> False
         | Next w' \<Rightarrow> running lst w' \<and> hooked w' \<and> clean (trace w')
         | Break w' \<Rightarrow> running lst w' \<and> halted (trace w')"
  using assms
proof (induction ps arbitrary: w)
  case Nil
  then show ?case by simp
next
  case (Cons pf ps)
  obtain p f where pf: "pf = (p, f)" by (cases pf)
  obtain a where a: "p = Ptr a" "a \<in> set (evs w)"
    using Cons.prems(5) pf by auto
  note st = dispatch_step [OF Cons.prems(1,2,3) a(2), of f]
  show ?case
  proof (cases "dispatch (Ptr a, f) w")
    case Undefined_step
    then show ?thesis using st by simp
  next
    case (Break w')
    then show ?thesis using st pf a(1) by simp
  next
    case (Next w')
    have r: "running lst w'" and hk: "hooked w'" and cl: "clean (trace w')"
      and keep: "set (evs w) - {a} \<subseteq> set (evs w')"
      using st Next by simp_all
    have d: "distinct (map fst ps)" using Cons.prems(4) by simp
    have notin: "Ptr a \<notin> fst ` set ps" using Cons.prems(4) pf a(1) by simp
    have "fst ` set ps \<subseteq> Ptr ` set (evs w')"
    proof
      fix q assume q: "q \<in> fst ` set ps"
      then obtain b where b: "q = Ptr b" "b \<in> set (evs w)" using Cons.prems(5) by auto
      then have "b \<noteq> a" using q notin by auto
      then show "q \<in> Ptr ` set (evs w')" using b keep by auto
    qed
    from Cons.IH [OF r hk cl d this] show ?thesis using Next pf a(1) by simp
  qed
qed


subsection \<open>The loop, the teardown and the whole run\<close>

lemma tx_loop_cases:
  assumes "running lst w" and "hooked w" and "clean (trace w)"
  shows "case tx_loop ws w of
           Undefined \<Rightarrow> False
         | Blocked w' \<Rightarrow> running lst w' \<and> hooked w' \<and> clean (trace w') \<and> evs w' \<noteq> []
         | Returned ex w' \<Rightarrow>
             running lst w' \<and>
             (ex = 0 \<and> evs w' = [] \<and> clean (trace w') \<or> ex = 1 \<and> halted (trace w'))"
  using assms
proof (induction ws arbitrary: w)
  case Nil
  then show ?case by simp
next
  case (Cons r rs)
  show ?case
  proof (cases "evs w = []")
    case True
    then show ?thesis using Cons.prems by simp
  next
    case False
    let ?w1 = "w\<lparr>trace := trace w @ [Wait]\<rparr>"
    have r1: "running lst ?w1" by (rule running_trace_other [OF Cons.prems(1)]) simp
    have h1: "hooked ?w1" using Cons.prems(2) by (simp add: hooked_def)
    have c1: "clean (trace ?w1)" using Cons.prems(3) by (simp add: clean_def)
    show ?thesis
    proof (cases r)
      case WaitFails
      have "halted (trace ?w1)" using c1 by (simp add: halted_def)
      then show ?thesis using False WaitFails r1 by simp
    next
      case (Ready fs)
      note da = dispatch_all_step [OF r1 h1 c1 epoll_wait_pending [OF h1, of fs]]
      show ?thesis
      proof (cases "dispatch_all (epoll_wait fs ?w1) ?w1")
        case Undefined_step
        then show ?thesis using da by simp
      next
        case (Break w')
        then show ?thesis using da False Ready by (simp add: Let_def)
      next
        case (Next w')
        then have "running lst w'" "hooked w'" "clean (trace w')" using da by simp_all
        from Cons.IH [OF this] show ?thesis using False Ready Next by (simp add: Let_def)
      qed
    qed
  qed
qed

lemma free_items_frame:
  "free_items as w = Some w' \<Longrightarrow> cmds w' = cmds w \<and> trace w' = trace w \<and> evs w' = evs w"
proof (induction as arbitrary: w)
  case Nil
  then show ?case by simp
next
  case (Cons a as)
  then show ?case by (cases "heap w a") auto
qed

lemma free_items_ok:
  "distinct as \<Longrightarrow> (\<And>a. a \<in> set as \<Longrightarrow> heap w a \<noteq> None) \<Longrightarrow> \<exists>w'. free_items as w = Some w'"
proof (induction as arbitrary: w)
  case Nil
  then show ?case by simp
next
  case (Cons a as)
  obtain ev where ev: "heap w a = Some ev" using Cons.prems(2) [of a] by auto
  let ?w = "w\<lparr>fds := fds w - {fd ev}, epoll := (epoll w)(fd ev := None), heap := (heap w)(a := None)\<rparr>"
  have "\<exists>w'. free_items as ?w = Some w'"
  proof (rule Cons.IH)
    show "distinct as" using Cons.prems(1) by simp
    fix b assume "b \<in> set as"
    then show "heap ?w b \<noteq> None" using Cons.prems by auto
  qed
  then show ?case using ev by simp
qed

lemma teardown_frame:
  "teardown ret w = Returned r' w' \<Longrightarrow>
     r' = ret \<and> cmds w' = cmds w \<and> trace w' = trace w \<and> evs w' = []"
  by (auto simp: teardown_def rx_events_free_all_def rx_events_free_def
           split: option.splits dest: free_items_frame)

lemma teardown_not_blocked: "teardown ret w \<noteq> Blocked w'"
  by (simp add: teardown_def split: option.splits)

lemma teardown_ok:
  assumes "running lst w"
  shows "\<exists>w'. teardown ret w = Returned ret w'"
proof -
  note rf = running_facts [OF assms]
  let ?w = "w\<lparr>efd_open := False, epoll := Map.empty\<rparr>"
  have "\<exists>w'. free_items (evs ?w) ?w = Some w'"
    by (rule free_items_ok) (use rf(2,4) in auto)
  then show ?thesis by (auto simp: teardown_def rx_events_free_all_def)
qed


lemma aborted_start: "aborted lst (start lst)"
  by (simp add: aborted_def start_def)

lemma tx_main_cases:
  "case tx_main e lst of
     Undefined \<Rightarrow> \<not> init_fails e \<and> \<not> fst (tx_admit (admission e) 0 lst (start lst))
   | Blocked w \<Rightarrow> running lst w \<and> hooked w \<and> clean (trace w) \<and> evs w \<noteq> []
   | Returned ret w \<Rightarrow>
       evs w = [] \<and>
       (ret = - 1 \<and> aborted lst w \<or>
        (\<exists>w0. cmds w = cmds w0 \<and> trace w = trace w0 \<and> running lst w0 \<and>
              (ret = 0 \<and> evs w0 = [] \<and> clean (trace w0) \<or> ret = 1 \<and> halted (trace w0))))"
proof (cases "init_fails e")
  case True
  then show ?thesis using aborted_start [of lst] by (simp add: tx_main_def) (simp add: start_def)
next
  case False
  obtain b w1 where adm: "tx_admit (admission e) 0 lst (start lst) = (b, w1)"
    by (cases "tx_admit (admission e) 0 lst (start lst)")
  note ac = tx_admit_cases [OF admitted_start, of lst lst "admission e", simplified, unfolded adm]
  show ?thesis
  proof (cases b)
    case b: False
    then have ab: "aborted lst w1" using ac by simp
    have tm: "tx_main e lst = teardown (- 1) w1" using False adm b by (simp add: tx_main_def)
    show ?thesis
    proof (cases "teardown (- 1) w1")
      case Undefined
      then show ?thesis using tm False adm b by simp
    next
      case (Blocked w')
      then show ?thesis using teardown_not_blocked by blast
    next
      case (Returned r' w')
      note tf = teardown_frame [OF Returned]
      have "aborted lst w'" using ab tf by (simp add: aborted_def)
      then show ?thesis using tm Returned tf by simp
    qed
  next
    case b: True
    then have "admitted lst (length lst) w1" using ac by simp
    note rk = admitted_running [OF this]
    have r: "running lst w1" and h: "hooked w1" and c: "clean (trace w1)" using rk by simp_all
    note lc = tx_loop_cases [OF r h c, of "waits e"]
    show ?thesis
    proof (cases "tx_loop (waits e) w1")
      case Undefined
      then show ?thesis using lc by simp
    next
      case (Blocked w')
      then show ?thesis using lc False adm b by (simp add: tx_main_def)
    next
      case (Returned ex w0)
      have r0: "running lst w0"
        and ex: "ex = 0 \<and> evs w0 = [] \<and> clean (trace w0) \<or> ex = 1 \<and> halted (trace w0)"
        using lc Returned by simp_all
      obtain w' where td: "teardown ex w0 = Returned ex w'" using teardown_ok [OF r0] by blast
      note tf = teardown_frame [OF td]
      have tm: "tx_main e lst = Returned ex w'"
        using False adm b Returned td by (simp add: tx_main_def)
      have "\<exists>w0. cmds w' = cmds w0 \<and> trace w' = trace w0 \<and> running lst w0 \<and>
              (ex = 0 \<and> evs w0 = [] \<and> clean (trace w0) \<or> ex = 1 \<and> halted (trace w0))"
        using tf r0 ex by blast
      then show ?thesis using tm tf by simp
    qed
  qed
qed

lemma scheduled_iff:
  assumes "running lst w"
  shows "scheduled i w \<longleftrightarrow> i \<in> set (evs w)"
proof
  assume "scheduled i w"
  then obtain a where a: "a \<in> set (evs w)" "case heap w a of None \<Rightarrow> False | Some ev \<Rightarrow> cmd ev = i"
    unfolding scheduled_def by blast
  then show "i \<in> set (evs w)" using running_facts(4) [OF assms a(1)] by simp
next
  assume "i \<in> set (evs w)"
  then show "scheduled i w"
    unfolding scheduled_def using running_facts(4) [OF assms] by force
qed



subsection \<open>How often a packet is sent\<close>

lemma counted_sends:
  assumes "counted lst w i" and "0 \<le> repeat (lst ! i)"
  shows "int (sends i w) \<le> max (repeat (lst ! i)) 1"
    and "i \<notin> set (evs w) \<Longrightarrow> int (sends i w) = max (repeat (lst ! i)) 1"
    and "i \<in> set (evs w) \<Longrightarrow>
           int (sends i w) + repeat (cmds w ! i) + 1 = max (repeat (lst ! i)) 1 \<and>
           0 \<le> repeat (cmds w ! i)"
  using assms by (auto simp: counted_def split: if_splits)

text \<open>What the counting invariant says of the states a run can end in.\<close>

lemma send_count_states:
  assumes "i < length lst" and "0 \<le> repeat (lst ! i)"
  shows "(\<forall>w. tx_main e lst = Blocked w \<longrightarrow>
            (if scheduled i w
             then int (sends i w) + repeat (cmds w ! i) + 1 = max (repeat (lst ! i)) 1 \<and>
                  0 \<le> repeat (cmds w ! i)
             else int (sends i w) = max (repeat (lst ! i)) 1)) \<and>
         (\<forall>ret w. tx_main e lst = Returned ret w \<longrightarrow>
            int (sends i w) \<le> max (repeat (lst ! i)) 1 \<and>
            (ret = 0 \<longrightarrow> int (sends i w) = max (repeat (lst ! i)) 1))"
proof (intro conjI allI impI)
  fix w assume b: "tx_main e lst = Blocked w"
  then have r: "running lst w" using tx_main_cases [of e lst] by simp
  note cs = counted_sends [OF running_facts(5) [OF r assms(1)] assms(2)]
  show "if scheduled i w
        then int (sends i w) + repeat (cmds w ! i) + 1 = max (repeat (lst ! i)) 1 \<and>
             0 \<le> repeat (cmds w ! i)
        else int (sends i w) = max (repeat (lst ! i)) 1"
    using cs(2,3) by (simp add: scheduled_iff [OF r])
next
  fix ret w assume b: "tx_main e lst = Returned ret w"
  then consider (ab) "ret = - 1" "aborted lst w"
    | (run) w0 where "trace w = trace w0" "running lst w0"
        "ret = 0 \<and> evs w0 = [] \<or> ret = 1"
    using tx_main_cases [of e lst] by auto
  then have "int (sends i w) \<le> max (repeat (lst ! i)) 1 \<and>
            (ret = 0 \<longrightarrow> int (sends i w) = max (repeat (lst ! i)) 1)"
  proof cases
    case ab
    then have "sends i w = 0" by (simp add: aborted_def sends_def)
    then show ?thesis using ab(1) by simp
  next
    case run
    note cs = counted_sends [OF running_facts(5) [OF run(2) assms(1)] assms(2)]
    have "sends i w = sends i w0" using run(1) by (simp add: sends_def)
    then show ?thesis using cs(1,2) run(3) by auto
  qed
  then show "int (sends i w) \<le> max (repeat (lst ! i)) 1"
    and "ret = 0 \<Longrightarrow> int (sends i w) = max (repeat (lst ! i)) 1" by simp_all
qed

lemma three_cycles_returns: "\<exists>w. tx_main three_cycles two_commands = Returned 0 w"
  by (simp add: three_cycles_def two_commands_def run_simps)

subsection \<open>A failing sender\<close>

lemma halted_failed:
  assumes "halted tr" and "Send i False \<in> set tr"
  shows "\<exists>pre. tr = pre @ [Send i False] \<and> (\<forall>j. Send j False \<notin> set pre)"
proof -
  from assms obtain j pre where p: "tr = pre @ [Send j False]" "clean pre"
    unfolding halted_def clean_def by blast
  then have "i = j" using assms(2) unfolding clean_def by auto
  then show ?thesis using p unfolding clean_def by blast
qed

text \<open>
  Claim C5. A run that is blocked in \<^verbatim>\<open>epoll_wait\<close> has seen no failed send. When a
  send has failed, the run has returned 1 (fatal) with the registry empty, and the
  failed send is the last call of the trace: no event was dispatched after it and no
  \<^verbatim>\<open>epoll_wait\<close> followed. A run that ends in undefined behaviour has failed in admission
  and never called a sender.
\<close>

theorem tx_main_send_failure:
  "(\<forall>w. tx_main e lst = Blocked w \<longrightarrow> (\<forall>i. Send i False \<notin> set (trace w))) \<and>
   (\<forall>ret w i. tx_main e lst = Returned ret w \<and> Send i False \<in> set (trace w) \<longrightarrow>
      ret = 1 \<and> evs w = [] \<and>
      (\<exists>pre. trace w = pre @ [Send i False] \<and> (\<forall>j. Send j False \<notin> set pre))) \<and>
   (tx_main e lst = Undefined \<longrightarrow>
      \<not> fst (tx_admit (admission e) 0 lst (start lst)) \<and>
      trace (snd (tx_admit (admission e) 0 lst (start lst))) = [])"
proof (intro conjI allI impI)
  fix w i assume "tx_main e lst = Blocked w"
  then have "clean (trace w)" using tx_main_cases [of e lst] by simp
  then show "Send i False \<notin> set (trace w)" by (simp add: clean_def)
next
  fix ret w i assume a: "tx_main e lst = Returned ret w \<and> Send i False \<in> set (trace w)"
  then have e: "evs w = []" using tx_main_cases [of e lst] by simp
  from a consider (ab) "aborted lst w"
    | (ok) "ret = 0" "clean (trace w)" | (bad) "ret = 1" "halted (trace w)"
    using tx_main_cases [of e lst] by auto
  then have "ret = 1 \<and> halted (trace w)"
  proof cases
    case ab
    then show ?thesis using a by (simp add: aborted_def)
  next
    case ok
    then show ?thesis using a by (simp add: clean_def)
  next
    case bad
    then show ?thesis by simp
  qed
  then show "ret = 1" and "evs w = []"
    and "\<exists>pre. trace w = pre @ [Send i False] \<and> (\<forall>j. Send j False \<notin> set pre)"
    using e a halted_failed by blast+
next
  assume u: "tx_main e lst = Undefined"
  then show "\<not> fst (tx_admit (admission e) 0 lst (start lst))"
    using tx_main_cases [of e lst] by simp
  then have "aborted lst (snd (tx_admit (admission e) 0 lst (start lst)))"
    using tx_admit_cases [OF admitted_start, of lst lst "admission e"]
    by (cases "tx_admit (admission e) 0 lst (start lst)") auto
  then show "trace (snd (tx_admit (admission e) 0 lst (start lst))) = []"
    by (simp add: aborted_def)
qed

lemma send_fails_returns:
  "\<exists>w. tx_main send_fails two_commands = Returned 1 w \<and>
       trace w = [Wait, Send 1 True, Send 0 False]"
  by (simp add: send_fails_def two_commands_def run_simps)

theorem tx_main_send_failure_witness:
  "\<exists>w. tx_main send_fails two_commands = Returned 1 w \<and> evs w = [] \<and>
       trace w = [Wait, Send 1 True, Send 0 False]"
proof -
  obtain w where w: "tx_main send_fails two_commands = Returned 1 w"
      "trace w = [Wait, Send 1 True, Send 0 False]"
    using send_fails_returns by blast
  have "evs w = []"
    using tx_main_send_failure [of send_fails two_commands] w by auto
  then show ?thesis using w by blast
qed



subsection \<open>The repeat counter\<close>

lemma update_counter:
  assumes "cs' = cs \<or> cs' = cs[ci := (cs ! ci)\<lparr>repeat := (if 0 < repeat (cs ! ci) then repeat (cs ! ci) - 1 else repeat (cs ! ci))\<rparr>]"
  shows "repeat (cs' ! j) = repeat (cs ! j) \<or>
         0 < repeat (cs ! j) \<and> repeat (cs' ! j) = repeat (cs ! j) - 1"
proof (cases "j = ci \<and> ci < length cs")
  case True
  then show ?thesis using assms by (cases "0 < repeat (cs ! ci)") auto
next
  case False
  then have "cs[ci := x] ! j = cs ! j" for x by (cases "j = ci") (simp_all add: list_update_beyond)
  then show ?thesis using assms by auto
qed

lemma apt_counter_step:
  "repeat (cmds (snd (add_packet_timer flt ci w)) ! j) = repeat (cmds w ! j) \<or>
   0 < repeat (cmds w ! j) \<and>
   repeat (cmds (snd (add_packet_timer flt ci w)) ! j) = repeat (cmds w ! j) - 1"
  by (rule update_counter) (use apt_cmds [of flt ci w] in \<open>simp add: spec_counter\<close>)

lemma drain_cmds: "drain f a ev cl w = Next w' \<or> drain f a ev cl w = Break w' \<Longrightarrow> cmds w' = cmds w"
  by (auto simp: drain_def split: if_splits)

lemma dispatch_cmds:
  assumes "dispatch pf w = Next w' \<or> dispatch pf w = Break w'"
  shows "cmds w' = cmds w \<or>
         (\<exists>ci. cmds w' = (cmds w)[ci := (cmds w ! ci)\<lparr>repeat := (if 0 < repeat (cmds w ! ci) then repeat (cmds w ! ci) - 1 else repeat (cmds w ! ci))\<rparr>])"
proof (cases "fst pf")
  case NULL
  then show ?thesis using assms by (simp add: dispatch_def)
next
  case (Ptr a)
  show ?thesis
  proof (cases "heap w a")
    case None
    then show ?thesis using assms Ptr by (simp add: dispatch_def)
  next
    case (Some ev)
    show ?thesis
      using assms Ptr Some
      by (auto simp: dispatch_def Let_def split: if_splits dest!: drain_cmds)
  qed
qed

lemma dispatch_counter_step:
  assumes "dispatch pf w = Next w' \<or> dispatch pf w = Break w'"
  shows "repeat (cmds w' ! j) = repeat (cmds w ! j) \<or>
         0 < repeat (cmds w ! j) \<and> repeat (cmds w' ! j) = repeat (cmds w ! j) - 1"
  using dispatch_cmds [OF assms] update_counter [of "cmds w'" "cmds w" _ j] by blast

lemma counted_counter:
  assumes "counted lst w i"
  shows "repeat (cmds w ! i) \<le> repeat (lst ! i)"
    and "0 \<le> repeat (lst ! i) \<Longrightarrow> 0 \<le> repeat (cmds w ! i)"
    and "repeat (lst ! i) < 0 \<Longrightarrow> repeat (cmds w ! i) = repeat (lst ! i) \<and> i \<in> set (evs w)"
  using assms by (auto simp: counted_def split: if_splits)

lemma aborted_counter:
  assumes "aborted lst w" and "i < length lst"
  shows "repeat (cmds w ! i) \<le> repeat (lst ! i)"
    and "0 \<le> repeat (lst ! i) \<Longrightarrow> 0 \<le> repeat (cmds w ! i)"
    and "repeat (lst ! i) < 0 \<Longrightarrow> repeat (cmds w ! i) = repeat (lst ! i)"
proof -
  have "repeat (cmds w ! i) = repeat (lst ! i) \<or>
        repeat (cmds w ! i) = (if 0 < repeat (lst ! i) then repeat (lst ! i) - 1 else repeat (lst ! i))"
    using assms unfolding aborted_def spec_counter by blast
  then show "repeat (cmds w ! i) \<le> repeat (lst ! i)"
    and "0 \<le> repeat (lst ! i) \<Longrightarrow> 0 \<le> repeat (cmds w ! i)"
    and "repeat (lst ! i) < 0 \<Longrightarrow> repeat (cmds w ! i) = repeat (lst ! i)"
    by (auto split: if_splits)
qed

text \<open>The counters over single steps and in the states a run can end in.\<close>

lemma repeat_counter_states:
  assumes "i < length lst"
  shows "(\<forall>flt ci w j.
            repeat (cmds (snd (add_packet_timer flt ci w)) ! j) = repeat (cmds w ! j) \<or>
            0 < repeat (cmds w ! j) \<and>
            repeat (cmds (snd (add_packet_timer flt ci w)) ! j) = repeat (cmds w ! j) - 1) \<and>
         (\<forall>pf w w' j. dispatch pf w = Next w' \<or> dispatch pf w = Break w' \<longrightarrow>
            repeat (cmds w' ! j) = repeat (cmds w ! j) \<or>
            0 < repeat (cmds w ! j) \<and> repeat (cmds w' ! j) = repeat (cmds w ! j) - 1) \<and>
         (\<forall>w. tx_main e lst = Blocked w \<or> (\<exists>ret. tx_main e lst = Returned ret w) \<longrightarrow>
            repeat (cmds w ! i) \<le> repeat (lst ! i) \<and>
            (0 \<le> repeat (lst ! i) \<longrightarrow> 0 \<le> repeat (cmds w ! i)) \<and>
            (repeat (lst ! i) < 0 \<longrightarrow> repeat (cmds w ! i) = repeat (lst ! i))) \<and>
         (repeat (lst ! i) < 0 \<longrightarrow>
            (\<forall>w. tx_main e lst = Blocked w \<longrightarrow> scheduled i w) \<and>
            (\<forall>w. tx_main e lst \<noteq> Returned 0 w))"
proof -
  have whole: "repeat (cmds w ! i) \<le> repeat (lst ! i) \<and>
            (0 \<le> repeat (lst ! i) \<longrightarrow> 0 \<le> repeat (cmds w ! i)) \<and>
            (repeat (lst ! i) < 0 \<longrightarrow> repeat (cmds w ! i) = repeat (lst ! i))"
    if "tx_main e lst = Blocked w \<or> (\<exists>ret. tx_main e lst = Returned ret w)" for w
  proof -
    from that consider (ab) "aborted lst w" | (run) w0 where "cmds w = cmds w0" "running lst w0"
      using tx_main_cases [of e lst] by auto
    then show ?thesis
    proof cases
      case ab
      show ?thesis using aborted_counter [OF ab assms] by blast
    next
      case run
      show ?thesis
        using counted_counter [OF running_facts(5) [OF run(2) assms]] run(1) by simp
    qed
  qed
  have neg1: "scheduled i w" if "repeat (lst ! i) < 0" "tx_main e lst = Blocked w" for w
  proof -
    have r: "running lst w" using tx_main_cases [of e lst] that(2) by simp
    show ?thesis
      using counted_counter(3) [OF running_facts(5) [OF r assms] that(1)]
      by (simp add: scheduled_iff [OF r])
  qed
  have neg2: "tx_main e lst \<noteq> Returned 0 w" if "repeat (lst ! i) < 0" for w
  proof
    assume "tx_main e lst = Returned 0 w"
    then obtain w0 where w0: "running lst w0" "evs w0 = []"
      using tx_main_cases [of e lst] by auto
    show False
      using counted_counter(3) [OF running_facts(5) [OF w0(1) assms] that] w0(2) by simp
  qed
  show ?thesis
    using apt_counter_step dispatch_counter_step whole neg1 neg2 by blast
qed

subsection \<open>Progress when no call fails\<close>

lemma dispatch_quiet:
  assumes "running lst w" and "a \<in> set (evs w)" and "quiet f"
  shows "\<exists>w'. dispatch (Ptr a, f) w = Next w' \<and>
              (\<forall>i. sends i w' = sends i w + (if i = a then 1 else 0))"
proof -
  have h: "heap w a = Some \<lparr>cmd = a, fd = a\<rparr>"
    by (rule running_facts(4) [OF assms(1,2)])
  have q: "\<not> send_err f" "\<not> del_err f" "\<not> read_err f"
    using assms(3) by (simp_all add: quiet_def)
  consider (pos) "0 < repeat (cmds w ! a)" | (zero) "repeat (cmds w ! a) = 0"
    | (neg) "repeat (cmds w ! a) < 0" by linarith
  then show ?thesis
  proof cases
    case pos
    then show ?thesis using q by (simp add: dispatch_eq [OF h] Let_def sends_def)
  next
    case zero
    then show ?thesis using q by (simp add: dispatch_eq [OF h] Let_def sends_def)
  next
    case neg
    then show ?thesis using q by (simp add: dispatch_eq [OF h] Let_def sends_def)
  qed
qed

lemma dispatch_all_quiet:
  assumes "running lst w" and "hooked w" and "clean (trace w)"
    and "distinct (map fst ps)" and "fst ` set ps \<subseteq> Ptr ` set (evs w)"
    and "\<And>pf. pf \<in> set ps \<Longrightarrow> quiet (snd pf)"
  shows "\<exists>w'. dispatch_all ps w = Next w' \<and> running lst w' \<and> hooked w' \<and> clean (trace w') \<and>
              (\<forall>i. sends i w' = sends i w + (if Ptr i \<in> fst ` set ps then 1 else 0))"
  using assms
proof (induction ps arbitrary: w)
  case Nil
  then show ?case by simp
next
  case (Cons pf ps)
  obtain p f where pf: "pf = (p, f)" by (cases pf)
  obtain a where a: "p = Ptr a" "a \<in> set (evs w)"
    using Cons.prems(5) pf by auto
  have qf: "quiet f" using Cons.prems(6) [of pf] pf by simp
  obtain w1 where w1: "dispatch (Ptr a, f) w = Next w1"
    and s1: "\<And>i. sends i w1 = sends i w + (if i = a then 1 else 0)"
    using dispatch_quiet [OF Cons.prems(1) a(2) qf] by blast
  note st = dispatch_step [OF Cons.prems(1,2,3) a(2), of f]
  have r: "running lst w1" and hk: "hooked w1" and cl: "clean (trace w1)"
    and keep: "set (evs w) - {a} \<subseteq> set (evs w1)"
    using st w1 by simp_all
  have d: "distinct (map fst ps)" using Cons.prems(4) by simp
  have notin: "Ptr a \<notin> fst ` set ps" using Cons.prems(4) pf a(1) by simp
  have sub: "fst ` set ps \<subseteq> Ptr ` set (evs w1)"
  proof
    fix q assume q: "q \<in> fst ` set ps"
    then obtain b where b: "q = Ptr b" "b \<in> set (evs w)" using Cons.prems(5) by auto
    then have "b \<noteq> a" using q notin by auto
    then show "q \<in> Ptr ` set (evs w1)" using b keep by auto
  qed
  have qs: "\<And>pf. pf \<in> set ps \<Longrightarrow> quiet (snd pf)" using Cons.prems(6) by simp
  obtain w' where w': "dispatch_all ps w1 = Next w'" "running lst w'" "hooked w'"
      "clean (trace w')"
    and s': "\<And>i. sends i w' = sends i w1 + (if Ptr i \<in> fst ` set ps then 1 else 0)"
    using Cons.IH [OF r hk cl d sub qs] by blast
  have "sends i w' = sends i w + (if Ptr i \<in> fst ` set (pf # ps) then 1 else 0)" for i
    using s' [of i] s1 [of i] notin pf a(1) by auto
  then show ?case using w' w1 pf a(1) by simp
qed

lemma ready_events_exact:
  assumes "\<And>x. ep x = (if x \<in> S then Some (Ptr x) else None)"
  shows "fst ` set (ready_events ep seen fs) = Ptr ` ((S - seen) \<inter> ready_fd ` set fs)"
    and "snd ` set (ready_events ep seen fs) \<subseteq> set fs"
    and "length (ready_events ep seen fs) \<le> length fs"
proof (induction fs arbitrary: seen)
  case Nil
  {
    case 1 show ?case by simp
  next
    case 2 show ?case by simp
  next
    case 3 show ?case by simp
  }
next
  case (Cons f fs)
  {
    case 1
    show ?case
    proof (cases "ready_fd f \<in> seen \<or> ready_fd f \<notin> S")
      case True
      then have "ready_fd f \<in> seen \<or> ep (ready_fd f) = None" using assms [of "ready_fd f"] by auto
      then have "ready_events ep seen (f # fs) = ready_events ep seen fs" by auto
      then show ?thesis using Cons.IH(1) [of seen] True by auto
    next
      case False
      then have e: "ep (ready_fd f) = Some (Ptr (ready_fd f))" using assms [of "ready_fd f"] by simp
      then have "ready_events ep seen (f # fs) =
                 (Ptr (ready_fd f), f) # ready_events ep (insert (ready_fd f) seen) fs"
        using False by simp
      then show ?thesis using Cons.IH(1) [of "insert (ready_fd f) seen"] False by auto
    qed
  next
    case 2
    show ?case
      using Cons.IH(2) [of seen] Cons.IH(2) [of "insert (ready_fd f) seen"]
      by (auto split: option.splits)
  next
    case 3
    show ?case
      using Cons.IH(3) [of seen] Cons.IH(3) [of "insert (ready_fd f) seen"]
      by (auto split: option.splits)
  }
qed


lemma epoll_wait_exact:
  assumes "hooked w" and "length fs \<le> MAX_EVENTS"
  shows "fst ` set (epoll_wait fs w) = Ptr ` (set (evs w) \<inter> ready_fd ` set fs)"
    and "snd ` set (epoll_wait fs w) \<subseteq> set fs"
proof -
  have ep: "\<And>x. epoll w x = (if x \<in> set (evs w) then Some (Ptr x) else None)"
    using assms(1) unfolding hooked_def by blast
  have "length (ready_events (epoll w) {} fs) \<le> MAX_EVENTS"
    using ready_events_exact(3) [OF ep, of "{}" fs] assms(2) by simp
  then have eq: "epoll_wait fs w = ready_events (epoll w) {} fs"
    by (simp add: epoll_wait_def)
  show "fst ` set (epoll_wait fs w) = Ptr ` (set (evs w) \<inter> ready_fd ` set fs)"
    using ready_events_exact(1) [OF ep, of "{}" fs] by (simp add: eq)
  show "snd ` set (epoll_wait fs w) \<subseteq> set fs"
    using ready_events_exact(2) [OF ep, of "{}" fs] by (simp add: eq)
qed

lemma fired_Cons: "fired i (r # rs) = (if expired i r then 1 else 0) + fired i rs"
  by (simp add: fired_def)

lemma cycle_quiet:
  assumes "running lst w" and "hooked w" and "clean (trace w)"
    and "length fs \<le> MAX_EVENTS" and "\<And>f. f \<in> set fs \<Longrightarrow> quiet f"
  shows "\<exists>w'. dispatch_all (epoll_wait fs (w\<lparr>trace := trace w @ [Wait]\<rparr>))
                 (w\<lparr>trace := trace w @ [Wait]\<rparr>) = Next w' \<and>
              running lst w' \<and> hooked w' \<and> clean (trace w') \<and>
              (\<forall>i. sends i w' =
                     sends i w + (if i \<in> set (evs w) \<and> expired i (Ready fs) then 1 else 0))"
proof -
  let ?w1 = "w\<lparr>trace := trace w @ [Wait]\<rparr>"
  have r1: "running lst ?w1" by (rule running_trace_other [OF assms(1)]) simp
  have h1: "hooked ?w1" using assms(2) by (simp add: hooked_def)
  have c1: "clean (trace ?w1)" using assms(3) by (simp add: clean_def)
  have s1: "sends i ?w1 = sends i w" for i by (simp add: sends_def)
  note ex = epoll_wait_exact [OF h1 assms(4)]
  have q: "quiet (snd pf)" if "pf \<in> set (epoll_wait fs ?w1)" for pf
    using that ex(2) assms(5) by auto
  obtain w' where w': "dispatch_all (epoll_wait fs ?w1) ?w1 = Next w'"
      "running lst w'" "hooked w'" "clean (trace w')"
    and s': "\<And>i. sends i w' =
               sends i ?w1 + (if Ptr i \<in> fst ` set (epoll_wait fs ?w1) then 1 else 0)"
    using dispatch_all_quiet [OF r1 h1 c1 epoll_wait_pending [OF h1, of fs] q] by blast
  have "Ptr i \<in> fst ` set (epoll_wait fs ?w1) \<longleftrightarrow> i \<in> set (evs w) \<and> expired i (Ready fs)" for i
    by (auto simp: ex(1) expired_def)
  then have "sends i w' =
               sends i w + (if i \<in> set (evs w) \<and> expired i (Ready fs) then 1 else 0)" for i
    using s' [of i] s1 [of i] by simp
  then show ?thesis using w' by blast
qed

lemma tx_loop_calm:
  assumes "running lst w" and "hooked w" and "clean (trace w)"
    and "\<And>r. r \<in> set ws \<Longrightarrow> calm_wait r"
  shows "\<exists>w'. (tx_loop ws w = Blocked w' \<or> tx_loop ws w = Returned 0 w') \<and>
              (\<forall>i < length lst. sends i w' = expected (repeat (lst ! i)) (sends i w + fired i ws))"
  using assms
proof (induction ws arbitrary: w)
  case Nil
  have "sends i w = expected (repeat (lst ! i)) (sends i w + fired i [])" if "i < length lst" for i
    using counted_sends(1) [OF running_facts(5) [OF Nil.prems(1) that]]
    by (auto simp: expected_def fired_def)
  then show ?case by auto
next
  case (Cons r rs)
  show ?case
  proof (cases "evs w = []")
    case True
    have "sends i w = expected (repeat (lst ! i)) (sends i w + fired i (r # rs))"
      if i: "i < length lst" for i
    proof (cases "repeat (lst ! i) < 0")
      case neg: True
      then show ?thesis
        using counted_counter(3) [OF running_facts(5) [OF Cons.prems(1) i]] True by simp
    next
      case False
      then have "int (sends i w) = max (repeat (lst ! i)) 1"
        using counted_sends(2) [OF running_facts(5) [OF Cons.prems(1) i]] True by simp
      then show ?thesis using False by (auto simp: expected_def)
    qed
    then show ?thesis using True by auto
  next
    case False
    have cw: "calm_wait r" using Cons.prems(4) by simp
    then obtain fs where fs: "r = Ready fs" "length fs \<le> MAX_EVENTS" "\<And>f. f \<in> set fs \<Longrightarrow> quiet f"
      by (cases r) (auto simp: calm_wait_def)
    obtain w1 where w1: "dispatch_all (epoll_wait fs (w\<lparr>trace := trace w @ [Wait]\<rparr>))
                 (w\<lparr>trace := trace w @ [Wait]\<rparr>) = Next w1"
        "running lst w1" "hooked w1" "clean (trace w1)"
      and s1: "\<And>i. sends i w1 =
                     sends i w + (if i \<in> set (evs w) \<and> expired i (Ready fs) then 1 else 0)"
      using cycle_quiet [OF Cons.prems(1,2,3) fs(2,3)] by blast
    have step: "tx_loop (r # rs) w = tx_loop rs w1"
      using False fs(1) w1(1) by (simp add: Let_def)
    have rs: "\<And>r. r \<in> set rs \<Longrightarrow> calm_wait r" using Cons.prems(4) by simp
    obtain w' where w': "tx_loop rs w1 = Blocked w' \<or> tx_loop rs w1 = Returned 0 w'"
      and s': "\<And>i. i < length lst \<Longrightarrow>
                 sends i w' = expected (repeat (lst ! i)) (sends i w1 + fired i rs)"
      using Cons.IH [OF w1(2,3,4) rs] by blast
    have "sends i w' = expected (repeat (lst ! i)) (sends i w + fired i (r # rs))"
      if i: "i < length lst" for i
    proof (cases "i \<in> set (evs w)")
      case True
      then show ?thesis using s' [OF i] s1 [of i] fs(1) by (simp add: fired_Cons)
    next
      case out: False
      then have n: "0 \<le> repeat (lst ! i)"
        using counted_counter(3) [OF running_facts(5) [OF Cons.prems(1) i]] by force
      then have "int (sends i w) = max (repeat (lst ! i)) 1"
        using counted_sends(2) [OF running_facts(5) [OF Cons.prems(1) i]] out by simp
      then show ?thesis using s' [OF i] s1 [of i] out n by (auto simp: expected_def)
    qed
    then show ?thesis using w' step by auto
  qed
qed


lemma tx_admit_calm:
  assumes "admitted lst k w" and "k + length rest = length lst"
    and "\<And>j. j < length lst \<Longrightarrow> adm j = None"
  shows "\<exists>w'. tx_admit adm k rest w = (True, w') \<and> admitted lst (length lst) w'"
  using assms(1,2)
proof (induction rest arbitrary: k w)
  case Nil
  then show ?case by simp
next
  case (Cons c rest)
  then have k: "k < length lst" by simp
  obtain w' where w': "add_packet_timer None k w = (Ptr k, w')" "admitted lst (Suc k) w'"
    using add_packet_timer_ok [OF Cons.prems(1) k] by blast
  have "Suc k + length rest = length lst" using Cons.prems(2) by simp
  from Cons.IH [OF w'(2) this] show ?case using assms(3) [OF k] w'(1) by simp
qed

lemma tx_main_calm:
  assumes "calm e lst"
  shows "\<exists>w w0. (tx_main e lst = Blocked w \<and> w0 = w \<and> evs w \<noteq> [] \<or>
                 tx_main e lst = Returned 0 w \<and> evs w0 = []) \<and>
                running lst w0 \<and> cmds w = cmds w0 \<and> trace w = trace w0 \<and>
                (\<forall>i < length lst. sends i w = expected (repeat (lst ! i)) (fired i (waits e)))"
proof -
  have ni: "\<not> init_fails e" and adm: "\<And>j. j < length lst \<Longrightarrow> admission e j = None"
    and cw: "\<And>r. r \<in> set (waits e) \<Longrightarrow> calm_wait r"
    using assms unfolding calm_def by blast+
  obtain w1 where w1: "tx_admit (admission e) 0 lst (start lst) = (True, w1)"
      "admitted lst (length lst) w1"
    using tx_admit_calm [of lst 0 "start lst" lst "admission e"] admitted_start [of lst] adm
    by auto
  note rk = admitted_running [OF w1(2)]
  have r: "running lst w1" and h: "hooked w1" and c: "clean (trace w1)" using rk by simp_all
  have z: "sends i w1 = 0" for i
    using w1(2) unfolding admitted_def admitting_def by (simp add: sends_def)
  obtain w0 where w0: "tx_loop (waits e) w1 = Blocked w0 \<or> tx_loop (waits e) w1 = Returned 0 w0"
    and s0: "\<And>i. i < length lst \<Longrightarrow>
               sends i w0 = expected (repeat (lst ! i)) (sends i w1 + fired i (waits e))"
    using tx_loop_calm [OF r h c cw] by blast
  note lc = tx_loop_cases [OF r h c, of "waits e"]
  from w0 show ?thesis
  proof
    assume b: "tx_loop (waits e) w1 = Blocked w0"
    then have "tx_main e lst = Blocked w0" using ni w1(1) by (simp add: tx_main_def)
    moreover have "running lst w0" "evs w0 \<noteq> []" using lc b by simp_all
    ultimately show ?thesis using s0 z by auto
  next
    assume b: "tx_loop (waits e) w1 = Returned 0 w0"
    then have r0: "running lst w0" and e0: "evs w0 = []" using lc by simp_all
    obtain w' where td: "teardown 0 w0 = Returned 0 w'" using teardown_ok [OF r0] by blast
    note tf = teardown_frame [OF td]
    have tm: "tx_main e lst = Returned 0 w'" using ni w1(1) b td by (simp add: tx_main_def)
    have "sends i w' = sends i w0" for i using tf by (simp add: sends_def)
    then show ?thesis using tm r0 e0 tf s0 z by auto
  qed
qed

lemma calm_counted:
  assumes "calm e lst" and "i < length lst"
  shows "\<exists>w. (tx_main e lst = Blocked w \<or> tx_main e lst = Returned 0 w) \<and>
             sends i w = expected (repeat (lst ! i)) (fired i (waits e)) \<and>
             (tx_main e lst = Blocked w \<longrightarrow>
                (scheduled i w \<longleftrightarrow> sends i w < nat (max (repeat (lst ! i)) 1) \<or> repeat (lst ! i) < 0)) \<and>
             repeat (cmds w ! i) =
               (if repeat (lst ! i) < 0 then repeat (lst ! i)
                else max (repeat (lst ! i)) 1 - int (sends i w) -
                     (if int (sends i w) < max (repeat (lst ! i)) 1 then 1 else 0))"
proof -
  obtain w w0 where c: "tx_main e lst = Blocked w \<and> w0 = w \<and> evs w \<noteq> [] \<or>
                 tx_main e lst = Returned 0 w \<and> evs w0 = []"
    and r0: "running lst w0" and cm: "cmds w = cmds w0" and tr: "trace w = trace w0"
    and s: "sends i w = expected (repeat (lst ! i)) (fired i (waits e))"
    using tx_main_calm [OF assms(1)] assms(2) by blast
  have ss: "sends i w = sends i w0" using tr by (simp add: sends_def)
  note cn = running_facts(5) [OF r0 assms(2)]
  have sched: "scheduled i w0 \<longleftrightarrow> i \<in> set (evs w0)" by (rule scheduled_iff [OF r0])
  have mem: "i \<in> set (evs w0) \<longleftrightarrow> sends i w < nat (max (repeat (lst ! i)) 1) \<or> repeat (lst ! i) < 0"
    using cn ss c by (cases "repeat (lst ! i) < 0") (auto simp: counted_def split: if_splits)
  have cnt: "repeat (cmds w ! i) =
               (if repeat (lst ! i) < 0 then repeat (lst ! i)
                else max (repeat (lst ! i)) 1 - int (sends i w) -
                     (if int (sends i w) < max (repeat (lst ! i)) 1 then 1 else 0))"
    using cn ss cm by (cases "repeat (lst ! i) < 0") (auto simp: counted_def split: if_splits)
  show ?thesis using c s sched mem cnt by auto
qed


lemma apt_counter_exact:
  assumes "ci < length (cmds w)"
    and "flt \<noteq> Some MallocFails" "flt \<noteq> Some TimerfdCreateFails" "flt \<noteq> Some RxEventsAddFails"
  shows "repeat (cmds (snd (add_packet_timer flt ci w)) ! ci) =
           (if 0 < repeat (cmds w ! ci) then repeat (cmds w ! ci) - 1 else repeat (cmds w ! ci))"
  using assms by (simp add: add_packet_timer_def Let_def spec_counter)

lemma dispatch_counter_exact:
  assumes "heap w a = Some ev" and "cmd ev < length (cmds w)" and "\<not> send_err f"
  shows "\<exists>w'. (dispatch (Ptr a, f) w = Next w' \<or> dispatch (Ptr a, f) w = Break w') \<and>
              repeat (cmds w' ! cmd ev) =
                (if 0 < repeat (cmds w ! cmd ev) then repeat (cmds w ! cmd ev) - 1
                 else repeat (cmds w ! cmd ev)) \<and>
              (\<forall>j. j \<noteq> cmd ev \<longrightarrow> repeat (cmds w' ! j) = repeat (cmds w ! j))"
proof -
  consider (pos) "0 < repeat (cmds w ! cmd ev)" | (zero) "repeat (cmds w ! cmd ev) = 0"
    | (neg) "repeat (cmds w ! cmd ev) < 0" by linarith
  then show ?thesis
  proof cases
    case pos
    then show ?thesis using assms by (simp add: dispatch_def drain_def Let_def)
  next
    case zero
    then show ?thesis using assms by (simp add: dispatch_def drain_def Let_def)
  next
    case neg
    then show ?thesis using assms by (simp add: dispatch_def drain_def Let_def)
  qed
qed

lemma dispatch_send_exact:
  assumes "heap w a = Some ev" and "\<not> send_err f"
  shows "\<exists>w'. (dispatch (Ptr a, f) w = Next w' \<or> dispatch (Ptr a, f) w = Break w') \<and>
              trace w' = trace w @ [Send (cmd ev) True] \<and>
              evs w' = (if repeat (cmds w ! cmd ev) = 0 then rx_events_rm (evs w) a else evs w)"
proof -
  consider (pos) "0 < repeat (cmds w ! cmd ev)" | (zero) "repeat (cmds w ! cmd ev) = 0"
    | (neg) "repeat (cmds w ! cmd ev) < 0" by linarith
  then show ?thesis
  proof cases
    case pos
    then show ?thesis using assms by (simp add: dispatch_def drain_def Let_def)
  next
    case zero
    then show ?thesis using assms by (simp add: dispatch_def drain_def Let_def)
  next
    case neg
    then show ?thesis using assms by (simp add: dispatch_def drain_def Let_def)
  qed
qed

subsection \<open>The schedule of a command\<close>

text \<open>
  Claim C1. Let command \<open>i\<close> have \<open>repeat = N \<ge> 0\<close>, and let \<open>M = max N 1\<close> (so \<open>M = 1\<close>
  for \<open>N = 0\<close> and \<open>N = 1\<close>, and \<open>M = N\<close> for \<open>N > 1\<close>).
  \<^item> In every run, whenever \<^verbatim>\<open>tx_main\<close> is blocked in \<^verbatim>\<open>epoll_wait\<close>: if the event is
    still in the registry, the packets sent so far plus the counter plus one are \<open>M\<close>;
    if it is not, exactly \<open>M\<close> were sent. When \<^verbatim>\<open>tx_main\<close> returns, at most \<open>M\<close>
    packets of the command were sent, and exactly \<open>M\<close> when it returns 0.
  \<^item> In a run in which no call fails, the number of packets sent is the number of waits
    in which the command's timer has expired, up to \<open>M\<close> and no further: every firing
    sends once until \<open>M\<close> are sent. The run has not failed, and while it waits the event
    is in the registry exactly as long as the timer has fired fewer than \<open>M\<close> times:
    the \<open>M\<close>-th firing retires it.
  \<^item> One dispatch of a live event whose send succeeds calls the sender exactly once,
    with this event's command, and takes the node out of the registry exactly when the
    counter is 0 at that firing.
\<close>

theorem tx_main_send_count:
  assumes "i < length lst" and "0 \<le> repeat (lst ! i)"
  shows "(\<forall>w. tx_main e lst = Blocked w \<longrightarrow>
            (if scheduled i w
             then int (sends i w) + repeat (cmds w ! i) + 1 = max (repeat (lst ! i)) 1 \<and>
                  0 \<le> repeat (cmds w ! i)
             else int (sends i w) = max (repeat (lst ! i)) 1)) \<and>
         (\<forall>ret w. tx_main e lst = Returned ret w \<longrightarrow>
            int (sends i w) \<le> max (repeat (lst ! i)) 1 \<and>
            (ret = 0 \<longrightarrow> int (sends i w) = max (repeat (lst ! i)) 1)) \<and>
         (calm e lst \<longrightarrow>
            (\<exists>w. (tx_main e lst = Blocked w \<or> tx_main e lst = Returned 0 w) \<and>
                 sends i w = min (nat (max (repeat (lst ! i)) 1)) (fired i (waits e)) \<and>
                 (tx_main e lst = Blocked w \<longrightarrow>
                    (scheduled i w \<longleftrightarrow> fired i (waits e) < nat (max (repeat (lst ! i)) 1))))) \<and>
         (\<forall>a f w ev. heap w a = Some ev \<and> \<not> send_err f \<longrightarrow>
            (\<exists>w'. (dispatch (Ptr a, f) w = Next w' \<or> dispatch (Ptr a, f) w = Break w') \<and>
                  trace w' = trace w @ [Send (cmd ev) True] \<and>
                  evs w' = (if repeat (cmds w ! cmd ev) = 0 then rx_events_rm (evs w) a
                            else evs w)))"
proof -
  have "\<exists>w. (tx_main e lst = Blocked w \<or> tx_main e lst = Returned 0 w) \<and>
                 sends i w = min (nat (max (repeat (lst ! i)) 1)) (fired i (waits e)) \<and>
                 (tx_main e lst = Blocked w \<longrightarrow>
                    (scheduled i w \<longleftrightarrow> fired i (waits e) < nat (max (repeat (lst ! i)) 1)))"
    if calm: "calm e lst"
  proof -
    obtain w where w: "tx_main e lst = Blocked w \<or> tx_main e lst = Returned 0 w"
      and s: "sends i w = expected (repeat (lst ! i)) (fired i (waits e))"
      and m: "tx_main e lst = Blocked w \<longrightarrow>
                (scheduled i w \<longleftrightarrow> sends i w < nat (max (repeat (lst ! i)) 1) \<or> repeat (lst ! i) < 0)"
      using calm_counted [OF calm assms(1)] by blast
    have s': "sends i w = min (nat (max (repeat (lst ! i)) 1)) (fired i (waits e))"
      using s assms(2) by (simp add: expected_def)
    have "tx_main e lst = Blocked w \<longrightarrow>
                    (scheduled i w \<longleftrightarrow> fired i (waits e) < nat (max (repeat (lst ! i)) 1))"
      using m s' assms(2) by auto
    then show ?thesis using w s' by blast
  qed
  moreover have "\<forall>a f w ev. heap w a = Some ev \<and> \<not> send_err f \<longrightarrow>
            (\<exists>w'. (dispatch (Ptr a, f) w = Next w' \<or> dispatch (Ptr a, f) w = Break w') \<and>
                  trace w' = trace w @ [Send (cmd ev) True] \<and>
                  evs w' = (if repeat (cmds w ! cmd ev) = 0 then rx_events_rm (evs w) a
                            else evs w))"
    using dispatch_send_exact by blast
  ultimately show ?thesis using send_count_states [OF assms, of e] by blast
qed

theorem tx_main_send_count_witness:
  "(\<exists>w. tx_main three_cycles two_commands = Returned 0 w \<and> sends 0 w = 1 \<and> sends 1 w = 3) \<and>
   (\<exists>w. tx_main two_cycles two_commands = Blocked w \<and> sends 1 w = 2 \<and> scheduled 1 w)"
proof -
  have c: "calm three_cycles two_commands" "calm two_cycles two_commands"
    by (simp_all add: calm_def calm_wait_def quiet_def MAX_EVENTS_def three_cycles_def
          two_cycles_def two_commands_def fires_def)
  have f: "fired 0 (waits three_cycles) = 1" "fired 1 (waits three_cycles) = 3"
      "fired 1 (waits two_cycles) = 2"
    by (simp_all add: fired_def expired_def three_cycles_def two_cycles_def fires_def)
  have r: "repeat (two_commands ! 0) = 0" "repeat (two_commands ! 1) = 3"
      "length two_commands = 2"
    by (simp_all add: two_commands_def command_def)
  obtain w where w: "tx_main three_cycles two_commands = Returned 0 w"
    using three_cycles_returns by blast
  have "sends 0 w = 1"
    using tx_main_send_count [of 0 two_commands three_cycles] w c f r by auto
  moreover have "sends 1 w = 3"
    using tx_main_send_count [of 1 two_commands three_cycles] w c f r by auto
  moreover have "\<exists>w. tx_main two_cycles two_commands = Blocked w \<and> sends 1 w = 2 \<and> scheduled 1 w"
    using tx_main_send_count [of 1 two_commands two_cycles] c f r by auto
  ultimately show ?thesis using w by blast
qed

text \<open>
  Claim C7.
  \<^item> One call of \<^verbatim>\<open>add_packet_timer\<close> and one dispatch each leave every counter as it is
    or decrement it once, and only a positive one.
  \<^item> Over a whole run, whether blocked or returned, the counter of command \<open>i\<close> is at
    most the caller's value, is not negative when the caller's value is not, and is the
    caller's value when that is negative. The event of a command with a negative
    \<open>repeat\<close> is in the registry whenever the run waits, and \<^verbatim>\<open>tx_main\<close> never returns 0
    then.
  \<^item> An admission that reaches the arming of the timer decrements a positive counter
    exactly once and leaves any other as it is; a dispatch whose send succeeds does the
    same to the counter of the event's command and changes no other counter.
  \<^item> In a run in which no call fails, the counter is the caller's negative value, or
    else \<open>max repeat 1 - 1\<close> less the number of firings, and 0 once that is used up. A
    command with a negative \<open>repeat\<close> has sent one packet for every firing of its timer,
    and the run is still waiting: only a fatal condition ends it.
\<close>

theorem tx_main_repeat_counter:
  assumes "i < length lst"
  shows "(\<forall>flt ci w j.
            repeat (cmds (snd (add_packet_timer flt ci w)) ! j) = repeat (cmds w ! j) \<or>
            0 < repeat (cmds w ! j) \<and>
            repeat (cmds (snd (add_packet_timer flt ci w)) ! j) = repeat (cmds w ! j) - 1) \<and>
         (\<forall>pf w w' j. dispatch pf w = Next w' \<or> dispatch pf w = Break w' \<longrightarrow>
            repeat (cmds w' ! j) = repeat (cmds w ! j) \<or>
            0 < repeat (cmds w ! j) \<and> repeat (cmds w' ! j) = repeat (cmds w ! j) - 1) \<and>
         (\<forall>w. tx_main e lst = Blocked w \<or> (\<exists>ret. tx_main e lst = Returned ret w) \<longrightarrow>
            repeat (cmds w ! i) \<le> repeat (lst ! i) \<and>
            (0 \<le> repeat (lst ! i) \<longrightarrow> 0 \<le> repeat (cmds w ! i)) \<and>
            (repeat (lst ! i) < 0 \<longrightarrow> repeat (cmds w ! i) = repeat (lst ! i))) \<and>
         (repeat (lst ! i) < 0 \<longrightarrow>
            (\<forall>w. tx_main e lst = Blocked w \<longrightarrow> scheduled i w) \<and>
            (\<forall>w. tx_main e lst \<noteq> Returned 0 w)) \<and>
         (\<forall>flt ci w. ci < length (cmds w) \<and> flt \<noteq> Some MallocFails \<and>
            flt \<noteq> Some TimerfdCreateFails \<and> flt \<noteq> Some RxEventsAddFails \<longrightarrow>
            repeat (cmds (snd (add_packet_timer flt ci w)) ! ci) =
              (if 0 < repeat (cmds w ! ci) then repeat (cmds w ! ci) - 1
               else repeat (cmds w ! ci))) \<and>
         (\<forall>a f w ev. heap w a = Some ev \<and> cmd ev < length (cmds w) \<and> \<not> send_err f \<longrightarrow>
            (\<exists>w'. (dispatch (Ptr a, f) w = Next w' \<or> dispatch (Ptr a, f) w = Break w') \<and>
                  repeat (cmds w' ! cmd ev) =
                    (if 0 < repeat (cmds w ! cmd ev) then repeat (cmds w ! cmd ev) - 1
                     else repeat (cmds w ! cmd ev)) \<and>
                  (\<forall>j. j \<noteq> cmd ev \<longrightarrow> repeat (cmds w' ! j) = repeat (cmds w ! j)))) \<and>
         (calm e lst \<longrightarrow>
            (\<exists>w. (tx_main e lst = Blocked w \<or> tx_main e lst = Returned 0 w) \<and>
                 repeat (cmds w ! i) =
                   (if repeat (lst ! i) < 0 then repeat (lst ! i)
                    else max 0 (max (repeat (lst ! i)) 1 - 1 - int (fired i (waits e)))) \<and>
                 (repeat (lst ! i) < 0 \<longrightarrow>
                    tx_main e lst = Blocked w \<and> sends i w = fired i (waits e) \<and>
                    scheduled i w)))"
proof -
  note old = repeat_counter_states [OF assms, of e]
  have run: "\<exists>w. (tx_main e lst = Blocked w \<or> tx_main e lst = Returned 0 w) \<and>
                 repeat (cmds w ! i) =
                   (if repeat (lst ! i) < 0 then repeat (lst ! i)
                    else max 0 (max (repeat (lst ! i)) 1 - 1 - int (fired i (waits e)))) \<and>
                 (repeat (lst ! i) < 0 \<longrightarrow>
                    tx_main e lst = Blocked w \<and> sends i w = fired i (waits e) \<and>
                    scheduled i w)"
    if calm: "calm e lst"
  proof -
    obtain w where w: "tx_main e lst = Blocked w \<or> tx_main e lst = Returned 0 w"
      and s: "sends i w = expected (repeat (lst ! i)) (fired i (waits e))"
      and r: "repeat (cmds w ! i) =
               (if repeat (lst ! i) < 0 then repeat (lst ! i)
                else max (repeat (lst ! i)) 1 - int (sends i w) -
                     (if int (sends i w) < max (repeat (lst ! i)) 1 then 1 else 0))"
      using calm_counted [OF calm assms] by blast
    have r': "repeat (cmds w ! i) =
                   (if repeat (lst ! i) < 0 then repeat (lst ! i)
                    else max 0 (max (repeat (lst ! i)) 1 - 1 - int (fired i (waits e))))"
      using r s by (auto simp: expected_def min_def max_def split: if_splits)
    have "tx_main e lst = Blocked w \<and> sends i w = fired i (waits e) \<and> scheduled i w"
      if n: "repeat (lst ! i) < 0"
    proof -
      have b: "tx_main e lst = Blocked w" using w old n by blast
      then have "scheduled i w" using old n by blast
      then show ?thesis using b s n by (simp add: expected_def)
    qed
    then show ?thesis using w r' by blast
  qed
  have five: "\<forall>flt ci w. ci < length (cmds w) \<and> flt \<noteq> Some MallocFails \<and>
            flt \<noteq> Some TimerfdCreateFails \<and> flt \<noteq> Some RxEventsAddFails \<longrightarrow>
            repeat (cmds (snd (add_packet_timer flt ci w)) ! ci) =
              (if 0 < repeat (cmds w ! ci) then repeat (cmds w ! ci) - 1
               else repeat (cmds w ! ci))"
    using apt_counter_exact by blast
  have six: "\<forall>a f w ev. heap w a = Some ev \<and> cmd ev < length (cmds w) \<and> \<not> send_err f \<longrightarrow>
            (\<exists>w'. (dispatch (Ptr a, f) w = Next w' \<or> dispatch (Ptr a, f) w = Break w') \<and>
                  repeat (cmds w' ! cmd ev) =
                    (if 0 < repeat (cmds w ! cmd ev) then repeat (cmds w ! cmd ev) - 1
                     else repeat (cmds w ! cmd ev)) \<and>
                  (\<forall>j. j \<noteq> cmd ev \<longrightarrow> repeat (cmds w' ! j) = repeat (cmds w ! j)))"
    using dispatch_counter_exact by blast
  show ?thesis
    by (intro conjI impI) (use old five six run in \<open>blast+\<close>)
qed

theorem tx_main_repeat_counter_witness:
  "\<exists>w. tx_main forever [command 5 (- 1)] = Blocked w \<and> sends 0 w = 2 \<and>
       repeat (cmds w ! 0) = - 1 \<and> scheduled 0 w"
proof -
  have c: "calm forever [command 5 (- 1)]"
    by (simp add: calm_def calm_wait_def quiet_def MAX_EVENTS_def forever_def fires_def)
  have f: "fired 0 (waits forever) = 2"
    by (simp add: fired_def expired_def forever_def fires_def)
  show ?thesis
    using tx_main_repeat_counter [of 0 "[command 5 (- 1)]" forever] c f
    by (auto simp: command_def)
qed

subsection \<open>Resources that are not released\<close>

text \<open>
  Claim C2, at a failing admission. When \<^verbatim>\<open>rx_events_add\<close> fails for the second command,
  \<^verbatim>\<open>add_packet_timer\<close> frees the wrapper and returns without closing the timer it has
  just created: \<^verbatim>\<open>tx_main\<close> returns \<open>-1\<close> with descriptor 1 still open. When
  \<^verbatim>\<open>epoll_ctl\<close> fails, the wrapper is freed while its node stays in the registry, and
  \<^verbatim>\<open>rx_events_free_all\<close> reads and frees it again: undefined behaviour.
\<close>

theorem tx_main_admission_leak:
  "(\<exists>w. tx_main add_fails_second two_commands = Returned (- 1) w \<and>
        trace w = [] \<and> evs w = [] \<and> fds w = {1} \<and> heap w 0 = None \<and> heap w 1 = None) \<and>
   tx_main epoll_add_fails_second two_commands = Undefined"
  by (auto simp: add_fails_second_def epoll_add_fails_second_def two_commands_def run_simps)


text \<open>
  Claim C3, at a fatal error while an event is retired. The event has left the registry
  when \<^verbatim>\<open>epoll_ctl(EPOLL_CTL_DEL)\<close> or \<^verbatim>\<open>read\<close> fails, the \<^verbatim>\<open>break\<close> skips the
  \<^verbatim>\<open>close\<close> and the \<^verbatim>\<open>free\<close>, and the teardown walks the registry only: \<^verbatim>\<open>tx_main\<close>
  returns 1 with the descriptor open and the wrapper allocated.
\<close>

theorem tx_main_retirement_leak:
  "(\<exists>w. tx_main del_fails [command 0 0] = Returned 1 w \<and> evs w = [] \<and>
        fds w = {0} \<and> heap w 0 = Some \<lparr>cmd = 0, fd = 0\<rparr>) \<and>
   (\<exists>w. tx_main drain_fails [command 0 0] = Returned 1 w \<and> evs w = [] \<and>
        fds w = {0} \<and> heap w 0 = Some \<lparr>cmd = 0, fd = 0\<rparr>)"
  by (simp add: del_fails_def drain_fails_def run_simps)


text \<open>
  Claim C6, when \<^verbatim>\<open>add_packet_timer\<close> returns \<open>NULL\<close> after a failed \<^verbatim>\<open>epoll_ctl\<close>: the
  node is in the registry, its descriptor is open and is not in the interest list, and
  its wrapper has been freed.
\<close>

theorem add_packet_timer_failure_registry:
  "fst (add_packet_timer (Some EpollCtlAddFails) 0 (start [command 0 0])) = NULL \<and>
   evs (snd (add_packet_timer (Some EpollCtlAddFails) 0 (start [command 0 0]))) = [0] \<and>
   epoll (snd (add_packet_timer (Some EpollCtlAddFails) 0 (start [command 0 0]))) 0 = None \<and>
   heap (snd (add_packet_timer (Some EpollCtlAddFails) 0 (start [command 0 0]))) 0 = None \<and>
   0 \<in> fds (snd (add_packet_timer (Some EpollCtlAddFails) 0 (start [command 0 0])))"
  by (simp add: run_simps)


end
